theory Spec2Isabelle
  imports Complex_Main
begin

section \<open>Python values and errors\<close>

text \<open>
  The values that flow through \<^verbatim>\<open>albumentations/core/utils.py\<close>. Python's
  unbounded integers are \<open>int\<close>. Lists and tuples are kept apart, since slicing keeps the
  container type while \<^verbatim>\<open>[*list(d), v]\<close> always builds a list. A numpy array
  or a torch tensor is represented by its shape alone: the code reads only the shape of
  an image. A float is represented by the real number it denotes: rounding, the
  infinities and NaN are outside this representation.
\<close>

datatype pyval =
    PNone
  | PBool bool
  | PInt int
  | PFloat real
  | PStr string
  | PList "pyval list"
  | PTuple "pyval list"
  | PNdarray "nat list"
  | PTensor "nat list"

text \<open>
  The exceptions of the source as values. \<open>Unmodelled\<close> marks an operation whose outcome
  depends on what this representation leaves out (the elements of an array, the
  lexicographic comparison of containers); no theorem below concludes it.
\<close>

datatype error =
    ValueError string
  | RuntimeError string
  | KeyError string
  | TypeError
  | IndexError
  | Unmodelled

type_synonym 'a result = "error + 'a"

definition rbind :: "'a result \<Rightarrow> ('a \<Rightarrow> 'b result) \<Rightarrow> 'b result" where
  "rbind m f = (case m of Inl e \<Rightarrow> Inl e | Inr x \<Rightarrow> f x)"

text \<open>\<^verbatim>\<open>[g(x) for x in xs]\<close>: the first element that raises ends the evaluation.\<close>

fun rmap :: "('a \<Rightarrow> 'b result) \<Rightarrow> 'a list \<Rightarrow> 'b list result" where
  "rmap g [] = Inr []"
| "rmap g (x # xs) = rbind (g x) (\<lambda>y. rbind (rmap g xs) (\<lambda>ys. Inr (y # ys)))"

text \<open>\<^verbatim>\<open>str(n)\<close> for a length, in decimal.\<close>

fun str_of_nat :: "nat \<Rightarrow> string" where
  "str_of_nat n =
     (if n < 10 then [''0123456789'' ! n]
      else str_of_nat (n div 10) @ [''0123456789'' ! (n mod 10)])"

declare str_of_nat.simps [simp del]

text \<open>\<^verbatim>\<open>repr(type(v))\<close>, as an f-string prints \<^verbatim>\<open>{type(img)}\<close>.\<close>

fun type_repr :: "pyval \<Rightarrow> string" where
  "type_repr PNone = ''<class 'NoneType'>''"
| "type_repr (PBool _) = ''<class 'bool'>''"
| "type_repr (PFloat _) = ''<class 'float'>''"
| "type_repr (PInt _) = ''<class 'int'>''"
| "type_repr (PStr _) = ''<class 'str'>''"
| "type_repr (PList _) = ''<class 'list'>''"
| "type_repr (PTuple _) = ''<class 'tuple'>''"
| "type_repr (PNdarray _) = ''<class 'numpy.ndarray'>''"
| "type_repr (PTensor _) = ''<class 'torch.Tensor'>''"

text \<open>\<^verbatim>\<open>len(v)\<close>: the first dimension for an array, \<open>TypeError\<close> for an unsized value.\<close>

fun py_len :: "pyval \<Rightarrow> nat result" where
  "py_len (PStr s) = Inr (length s)"
| "py_len (PList xs) = Inr (length xs)"
| "py_len (PTuple xs) = Inr (length xs)"
| "py_len (PNdarray (n # _)) = Inr n"
| "py_len (PTensor (n # _)) = Inr n"
| "py_len _ = Inl TypeError"

text \<open>
  The elements \<^verbatim>\<open>for x in v\<close> yields: the characters of a string as strings of
  length one, the sub-arrays of an array along its first axis.
\<close>

fun py_iter :: "pyval \<Rightarrow> pyval list result" where
  "py_iter (PStr s) = Inr (map (\<lambda>c. PStr [c]) s)"
| "py_iter (PList xs) = Inr xs"
| "py_iter (PTuple xs) = Inr xs"
| "py_iter (PNdarray (n # shp)) = Inr (replicate n (PNdarray shp))"
| "py_iter (PTensor (n # shp)) = Inr (replicate n (PTensor shp))"
| "py_iter _ = Inl TypeError"

text \<open>\<^verbatim>\<open>v[i]\<close> with Python's negative indices; out of range raises \<open>IndexError\<close>.\<close>

definition nth_py :: "'a list \<Rightarrow> int \<Rightarrow> 'a result" where
  "nth_py xs i =
     (if 0 \<le> i \<and> i < int (length xs) then Inr (xs ! nat i)
      else if i < 0 \<and> - int (length xs) \<le> i then Inr (xs ! nat (int (length xs) + i))
      else Inl IndexError)"

fun py_index :: "pyval \<Rightarrow> int \<Rightarrow> pyval result" where
  "py_index (PStr s) i = rbind (nth_py s i) (\<lambda>c. Inr (PStr [c]))"
| "py_index (PList xs) i = nth_py xs i"
| "py_index (PTuple xs) i = nth_py xs i"
| "py_index (PNdarray (n # shp)) i = nth_py (replicate n (PNdarray shp)) i"
| "py_index (PTensor (n # shp)) i = nth_py (replicate n (PTensor shp)) i"
| "py_index (PNdarray []) i = Inl IndexError"
| "py_index (PTensor []) i = Inl IndexError"
| "py_index _ i = Inl TypeError"

text \<open>\<^verbatim>\<open>v[:stop]\<close>: the slice keeps the container type and never raises on a sequence.\<close>

definition slice_stop :: "nat \<Rightarrow> int \<Rightarrow> nat" where
  "slice_stop n stop = (if stop < 0 then nat (int n + stop) else min (nat stop) n)"

fun py_slice_to :: "pyval \<Rightarrow> int \<Rightarrow> pyval result" where
  "py_slice_to (PStr s) stop = Inr (PStr (take (slice_stop (length s) stop) s))"
| "py_slice_to (PList xs) stop = Inr (PList (take (slice_stop (length xs) stop) xs))"
| "py_slice_to (PTuple xs) stop = Inr (PTuple (take (slice_stop (length xs) stop) xs))"
| "py_slice_to (PNdarray (n # shp)) stop = Inr (PNdarray (slice_stop n stop # shp))"
| "py_slice_to (PTensor (n # shp)) stop = Inr (PTensor (slice_stop n stop # shp))"
| "py_slice_to (PNdarray []) stop = Inl IndexError"
| "py_slice_to (PTensor []) stop = Inl IndexError"
| "py_slice_to _ stop = Inl TypeError"

section \<open>get_shape\<close>

text \<open>
  \<^verbatim>\<open>img.shape[:2]\<close> for a numpy array, \<^verbatim>\<open>img.shape[-2:]\<close> for a tensor when
  \<^verbatim>\<open>import torch\<close> succeeds (\<open>torch\<close>), \<open>RuntimeError\<close> otherwise.
\<close>

definition unsupported_image_msg :: "pyval \<Rightarrow> string" where
  "unsupported_image_msg img =
     ''Albumentations supports only numpy.ndarray and torch.Tensor data type for image. Got: ''
       @ type_repr img"

fun get_shape :: "bool \<Rightarrow> pyval \<Rightarrow> nat list result" where
  "get_shape torch (PNdarray shp) = Inr (take 2 shp)"
| "get_shape torch (PTensor shp) =
     (if torch then Inr (drop (length shp - 2) shp)
      else Inl (RuntimeError (unsupported_image_msg (PTensor shp))))"
| "get_shape torch img = Inl (RuntimeError (unsupported_image_msg img))"

section \<open>to_tuple\<close>

text \<open>\<^verbatim>\<open>isinstance(v, Sequence)\<close> and \<^verbatim>\<open>isinstance(v, (int, float))\<close>.\<close>

fun is_Sequence :: "pyval \<Rightarrow> bool" where
  "is_Sequence (PStr _) = True"
| "is_Sequence (PList _) = True"
| "is_Sequence (PTuple _) = True"
| "is_Sequence _ = False"

text \<open>
  \<^verbatim>\<open>bool\<close> is a subclass of \<^verbatim>\<open>int\<close>, so a boolean is a scalar too. \<open>num_val\<close> is
  the number a scalar stands for, \<open>int_val\<close> the integer when it is not a float.
\<close>

fun is_scalar :: "pyval \<Rightarrow> bool" where
  "is_scalar (PBool _) = True"
| "is_scalar (PInt _) = True"
| "is_scalar (PFloat _) = True"
| "is_scalar _ = False"

fun num_val :: "pyval \<Rightarrow> real option" where
  "num_val (PBool b) = Some (if b then 1 else 0)"
| "num_val (PInt i) = Some (real_of_int i)"
| "num_val (PFloat x) = Some x"
| "num_val _ = None"

fun int_val :: "pyval \<Rightarrow> int option" where
  "int_val (PBool b) = Some (if b then 1 else 0)"
| "int_val (PInt i) = Some i"
| "int_val _ = None"

fun is_array :: "pyval \<Rightarrow> bool" where
  "is_array (PNdarray _) = True"
| "is_array (PTensor _) = True"
| "is_array _ = False"

text \<open>Strings compare by code point, position by position.\<close>

fun str_lt :: "string \<Rightarrow> string \<Rightarrow> bool" where
  "str_lt [] [] = False"
| "str_lt [] (d # t) = True"
| "str_lt (c # s) [] = False"
| "str_lt (c # s) (d # t) =
     (if c = d then str_lt s t else (of_char c :: nat) < of_char d)"

fun str_pair :: "pyval \<Rightarrow> pyval \<Rightarrow> (string \<times> string) option" where
  "str_pair (PStr s) (PStr t) = Some (s, t)"
| "str_pair _ _ = None"

fun same_container :: "pyval \<Rightarrow> pyval \<Rightarrow> bool" where
  "same_container (PList _) (PList _) = True"
| "same_container (PTuple _) (PTuple _) = True"
| "same_container _ _ = False"

text \<open>
  \<^verbatim>\<open>a < b\<close>: numbers are ordered by value and strings among themselves; \<open>None\<close>
  and mixed kinds raise \<open>TypeError\<close>. The comparison of two lists or two tuples, and
  any comparison with an array, is not represented.
\<close>

definition py_lt :: "pyval \<Rightarrow> pyval \<Rightarrow> bool result" where
  "py_lt a b =
     (case (num_val a, num_val b) of
        (Some x, Some y) \<Rightarrow> Inr (x < y)
      | _ \<Rightarrow>
          (case str_pair a b of
             Some (s, t) \<Rightarrow> Inr (str_lt s t)
           | None \<Rightarrow>
               if is_array a \<or> is_array b \<or> same_container a b then Inl Unmodelled
               else Inl TypeError))"

text \<open>
  \<^verbatim>\<open>min(param)\<close> and \<^verbatim>\<open>max(param)\<close> on the two elements \<open>a, b\<close>: the first
  element stays unless the second is strictly smaller (greater).
\<close>

definition py_min2 :: "pyval \<Rightarrow> pyval \<Rightarrow> pyval result" where
  "py_min2 a b = rbind (py_lt b a) (\<lambda>lt. Inr (if lt then b else a))"

definition py_max2 :: "pyval \<Rightarrow> pyval \<Rightarrow> pyval result" where
  "py_max2 a b = rbind (py_lt a b) (\<lambda>gt. Inr (if gt then b else a))"

text \<open>
  \<^verbatim>\<open>a + b\<close>: an integer for two integers or booleans, a float when a float takes
  part, the concatenation of two sequences of one kind.
\<close>

fun py_concat :: "pyval \<Rightarrow> pyval \<Rightarrow> pyval result" where
  "py_concat (PStr a) (PStr b) = Inr (PStr (a @ b))"
| "py_concat (PList a) (PList b) = Inr (PList (a @ b))"
| "py_concat (PTuple a) (PTuple b) = Inr (PTuple (a @ b))"
| "py_concat _ _ = Inl TypeError"

definition py_add :: "pyval \<Rightarrow> pyval \<Rightarrow> pyval result" where
  "py_add a b =
     (case (int_val a, int_val b) of
        (Some i, Some j) \<Rightarrow> Inr (PInt (i + j))
      | _ \<Rightarrow>
          (case (num_val a, num_val b) of
             (Some x, Some y) \<Rightarrow> Inr (PFloat (x + y))
           | _ \<Rightarrow> if is_array a \<or> is_array b then Inl Unmodelled else py_concat a b))"

text \<open>\<^verbatim>\<open>-a\<close>; the negation of a boolean is an integer.\<close>

fun py_neg :: "pyval \<Rightarrow> pyval result" where
  "py_neg (PBool b) = Inr (PInt (if b then - 1 else 0))"
| "py_neg (PInt i) = Inr (PInt (- i))"
| "py_neg (PFloat x) = Inr (PFloat (- x))"
| "py_neg (PNdarray _) = Inl Unmodelled"
| "py_neg (PTensor _) = Inl Unmodelled"
| "py_neg _ = Inl TypeError"

definition low_bias_msg :: string where
  "low_bias_msg = ''Arguments 'low' and 'bias' cannot be used together.''"

definition param_shape_msg :: string where
  "param_shape_msg = ''Argument 'param' must be either a scalar or a sequence of 2 elements.''"

text \<open>
  Modelled from the spec: the constant \<^verbatim>\<open>PAIR\<close> is imported from
  \<^verbatim>\<open>albumentations/core/types.py\<close>, which is not among the sources; the
  specification speaks of a sequence of two elements.
\<close>

definition PAIR :: nat where
  "PAIR = 2"

text \<open>The branch that derives \<open>(min_val, max_val)\<close> from \<open>param\<close> and \<open>low\<close>.\<close>

definition min_max_of :: "pyval \<Rightarrow> pyval \<Rightarrow> (pyval \<times> pyval) result" where
  "min_max_of param low =
     (if is_Sequence param \<and> py_len param = Inr PAIR then
        rbind (py_iter param) (\<lambda>items.
          case items of
            [a, b] \<Rightarrow> rbind (py_min2 a b) (\<lambda>mn. rbind (py_max2 a b) (\<lambda>mx. Inr (mn, mx)))
          | _ \<Rightarrow> Inl TypeError)
      else if is_scalar param then
        (if is_scalar low then
           rbind (py_lt low param) (\<lambda>lt. Inr (if lt then (low, param) else (param, low)))
         else rbind (py_neg param) (\<lambda>neg. Inr (neg, param)))
      else Inl (ValueError param_shape_msg))"

text \<open>\<open>low\<close> and \<open>bias\<close> are \<open>PNone\<close> when the caller leaves them out.\<close>

definition to_tuple :: "pyval \<Rightarrow> pyval \<Rightarrow> pyval \<Rightarrow> (pyval \<times> pyval) result" where
  "to_tuple param low bias =
     (if low \<noteq> PNone \<and> bias \<noteq> PNone then Inl (ValueError low_bias_msg)
      else
        rbind (min_max_of param low) (\<lambda>(min_val, max_val).
          if bias \<noteq> PNone then
            rbind (py_add bias min_val) (\<lambda>lo.
              rbind (py_add bias max_val) (\<lambda>hi. Inr (lo, hi)))
          else Inr (min_val, max_val)))"

section \<open>Params and DataProcessor\<close>

record params =
  format :: string
  label_fields :: "string list option"

text \<open>
  A sample is the \<^verbatim>\<open>dict[str, Any]\<close> the pipeline passes around. The abstract
  methods of \<^verbatim>\<open>DataProcessor\<close> are implemented outside this file: they are fields
  of the processor, each returning its value or the exception it raises.
\<close>

type_synonym sample = "string \<rightharpoonup> pyval"

record abstract_methods =
  default_data_name :: string
  filter_op :: "pyval \<Rightarrow> nat list \<Rightarrow> pyval result"
  check :: "pyval \<Rightarrow> nat list \<Rightarrow> error option"
  convert_to_albumentations :: "pyval \<Rightarrow> nat list \<Rightarrow> pyval result"
  convert_from_albumentations :: "pyval \<Rightarrow> nat list \<Rightarrow> pyval result"

record processor = abstract_methods +
  params :: params
  data_fields :: "string list"

text \<open>
  \<^verbatim>\<open>add_targets\<close>: \<open>additional_targets\<close> is the dict's items in iteration order.
\<close>

fun add_targets :: "processor \<Rightarrow> (string \<times> string) list \<Rightarrow> processor" where
  "add_targets p [] = p"
| "add_targets p ((k, v) # rest) =
     add_targets
       (if v = default_data_name p \<and> k \<notin> set (data_fields p)
        then p\<lparr>data_fields := data_fields p @ [k]\<rparr> else p)
       rest"

text \<open>\<^verbatim>\<open>__init__\<close>: the default stream, then the additional targets if any.\<close>

definition init_processor ::
  "abstract_methods \<Rightarrow> params \<Rightarrow> (string \<times> string) list option \<Rightarrow> processor" where
  "init_processor m ps additional_targets =
     (let p = \<lparr>default_data_name = default_data_name m, filter_op = filter_op m,
                check = check m,
                convert_to_albumentations = convert_to_albumentations m,
                convert_from_albumentations = convert_from_albumentations m,
                params = ps, data_fields = [default_data_name m]\<rparr>
      in case additional_targets of None \<Rightarrow> p | Some ts \<Rightarrow> add_targets p ts)"

definition invalid_direction_msg :: "string \<Rightarrow> string" where
  "invalid_direction_msg direction =
     ''Invalid direction. Must be `to` or `from`. Got `'' @ direction @ ''`''"

definition check_and_convert ::
  "processor \<Rightarrow> pyval \<Rightarrow> nat list \<Rightarrow> string \<Rightarrow> pyval result" where
  "check_and_convert p data image_shape direction =
     (if format (params p) = ''albumentations'' then
        (case check p data image_shape of Some e \<Rightarrow> Inl e | None \<Rightarrow> Inr data)
      else if direction = ''to'' then convert_to_albumentations p data image_shape
      else if direction = ''from'' then convert_from_albumentations p data image_shape
      else Inl (ValueError (invalid_direction_msg direction)))"

text \<open>\<^verbatim>\<open>data[k]\<close> on the sample.\<close>

definition py_getitem :: "sample \<Rightarrow> string \<Rightarrow> pyval result" where
  "py_getitem data k = (case data k of None \<Rightarrow> Inl (KeyError k) | Some v \<Rightarrow> Inr v)"

subsection \<open>add_label_fields_to_data\<close>

definition length_mismatch_msg :: "nat \<Rightarrow> nat \<Rightarrow> string" where
  "length_mismatch_msg n m =
     ''The lengths of bboxes and labels do not match. Got '' @ str_of_nat n @ '' and ''
       @ str_of_nat m @ '' respectively.''"

text \<open>\<^verbatim>\<open>[*list(d), field_value]\<close>.\<close>

definition append_value :: "pyval \<times> pyval \<Rightarrow> pyval result" where
  "append_value dv = (case dv of (d, field_value) \<Rightarrow>
     rbind (py_iter d) (\<lambda>xs. Inr (PList (xs @ [field_value]))))"

text \<open>
  The body of the loop over the label fields, up to the assignment: the length check,
  then \<open>data_with_added_field\<close>.
\<close>

definition data_with_added_field :: "sample \<Rightarrow> string \<Rightarrow> string \<Rightarrow> pyval result" where
  "data_with_added_field data data_name field =
     rbind (py_getitem data data_name) (\<lambda>stream.
     rbind (py_len stream) (\<lambda>n.
     rbind (py_getitem data field) (\<lambda>column.
     rbind (py_len column) (\<lambda>m.
       if n \<noteq> m then Inl (ValueError (length_mismatch_msg n m))
       else
         rbind (py_iter stream) (\<lambda>ds.
         rbind (py_iter column) (\<lambda>vs.
         rbind (rmap append_value (zip ds vs)) (\<lambda>rows. Inr (PList rows))))))))"

text \<open>
  The functions that mutate the sample return the exception raised, if any, together
  with the dict as it is at that moment: the caller holds the same dict.
\<close>

fun add_fields_loop :: "string \<Rightarrow> string list \<Rightarrow> sample \<Rightarrow> error option \<times> sample" where
  "add_fields_loop data_name [] data = (None, data)"
| "add_fields_loop data_name (field # flds) data =
     (case data_with_added_field data data_name field of
        Inl e \<Rightarrow> (Some e, data)
      | Inr v \<Rightarrow> add_fields_loop data_name flds (data(data_name \<mapsto> v)))"

fun add_streams_loop :: "string list \<Rightarrow> string list \<Rightarrow> sample \<Rightarrow> error option \<times> sample" where
  "add_streams_loop [] flds data = (None, data)"
| "add_streams_loop (data_name # names) flds data =
     (if data data_name \<noteq> None then
        (case add_fields_loop data_name flds data of
           (Some e, data') \<Rightarrow> (Some e, data')
         | (None, data') \<Rightarrow> add_streams_loop names flds data')
      else add_streams_loop names flds data)"

definition add_label_fields_to_data :: "processor \<Rightarrow> sample \<Rightarrow> error option \<times> sample" where
  "add_label_fields_to_data p data =
     (case label_fields (params p) of
        None \<Rightarrow> (None, data)
      | Some flds \<Rightarrow> add_streams_loop (data_fields p) flds data)"

subsection \<open>remove_label_fields_from_data\<close>

text \<open>\<^verbatim>\<open>[bbox[-label_fields_len + idx] for bbox in data[data_name]]\<close>.\<close>

definition label_column :: "sample \<Rightarrow> string \<Rightarrow> nat \<Rightarrow> nat \<Rightarrow> pyval result" where
  "label_column data data_name label_fields_len idx =
     rbind (py_getitem data data_name) (\<lambda>stream.
     rbind (py_iter stream) (\<lambda>bboxes.
     rbind (rmap (\<lambda>bbox. py_index bbox (- int label_fields_len + int idx)) bboxes)
       (\<lambda>col. Inr (PList col))))"

text \<open>\<^verbatim>\<open>[d[:-label_fields_len] for d in data[data_name]]\<close>.\<close>

definition stripped_stream :: "sample \<Rightarrow> string \<Rightarrow> nat \<Rightarrow> pyval result" where
  "stripped_stream data data_name label_fields_len =
     rbind (py_getitem data data_name) (\<lambda>stream.
     rbind (py_iter stream) (\<lambda>ds.
     rbind (rmap (\<lambda>d. py_slice_to d (- int label_fields_len)) ds)
       (\<lambda>rows. Inr (PList rows))))"

text \<open>The loop over \<^verbatim>\<open>enumerate(self.params.label_fields)\<close>, from index \<open>idx\<close> on.\<close>

fun remove_fields_loop ::
  "string \<Rightarrow> nat \<Rightarrow> nat \<Rightarrow> string list \<Rightarrow> sample \<Rightarrow> error option \<times> sample" where
  "remove_fields_loop data_name label_fields_len idx [] data = (None, data)"
| "remove_fields_loop data_name label_fields_len idx (field # flds) data =
     (case label_column data data_name label_fields_len idx of
        Inl e \<Rightarrow> (Some e, data)
      | Inr col \<Rightarrow>
          remove_fields_loop data_name label_fields_len (Suc idx) flds (data(field \<mapsto> col)))"

fun remove_streams_loop :: "string list \<Rightarrow> string list \<Rightarrow> sample \<Rightarrow> error option \<times> sample" where
  "remove_streams_loop [] flds data = (None, data)"
| "remove_streams_loop (data_name # names) flds data =
     (if data data_name \<noteq> None then
        (case remove_fields_loop data_name (length flds) 0 flds data of
           (Some e, data') \<Rightarrow> (Some e, data')
         | (None, data') \<Rightarrow>
             (case stripped_stream data' data_name (length flds) of
                Inl e \<Rightarrow> (Some e, data')
              | Inr v \<Rightarrow> remove_streams_loop names flds (data'(data_name \<mapsto> v))))
      else remove_streams_loop names flds data)"

definition remove_label_fields_from_data :: "processor \<Rightarrow> sample \<Rightarrow> error option \<times> sample" where
  "remove_label_fields_from_data p data =
     (case label_fields (params p) of
        None \<Rightarrow> (None, data)
      | Some flds \<Rightarrow>
          if flds = [] then (None, data)
          else remove_streams_loop (data_fields p) flds data)"

subsection \<open>preprocess and postprocess\<close>

fun preprocess_loop ::
  "processor \<Rightarrow> nat list \<Rightarrow> string list \<Rightarrow> sample \<Rightarrow> error option \<times> sample" where
  "preprocess_loop p image_shape [] data = (None, data)"
| "preprocess_loop p image_shape (data_name # names) data =
     (case data data_name of
        None \<Rightarrow> preprocess_loop p image_shape names data
      | Some v \<Rightarrow>
          (case check_and_convert p v image_shape ''to'' of
             Inl e \<Rightarrow> (Some e, data)
           | Inr v' \<Rightarrow> preprocess_loop p image_shape names (data(data_name \<mapsto> v'))))"

text \<open>\<open>torch\<close> tells whether \<^verbatim>\<open>import torch\<close> succeeds in \<open>get_shape\<close>.\<close>

definition preprocess :: "bool \<Rightarrow> processor \<Rightarrow> sample \<Rightarrow> error option \<times> sample" where
  "preprocess torch p data =
     (case add_label_fields_to_data p data of
        (Some e, data') \<Rightarrow> (Some e, data')
      | (None, data') \<Rightarrow>
          (case rbind (py_getitem data' ''image'') (get_shape torch) of
             Inl e \<Rightarrow> (Some e, data')
           | Inr image_shape \<Rightarrow> preprocess_loop p image_shape (data_fields p) data'))"

fun postprocess_loop ::
  "processor \<Rightarrow> nat list \<Rightarrow> string list \<Rightarrow> sample \<Rightarrow> error option \<times> sample" where
  "postprocess_loop p image_shape [] data = (None, data)"
| "postprocess_loop p image_shape (data_name # names) data =
     (case data data_name of
        None \<Rightarrow> postprocess_loop p image_shape names data
      | Some v \<Rightarrow>
          (case filter_op p v image_shape of
             Inl e \<Rightarrow> (Some e, data)
           | Inr fv \<Rightarrow>
               (case check_and_convert p fv image_shape ''from'' of
                  Inl e \<Rightarrow> (Some e, data(data_name \<mapsto> fv))
                | Inr cv \<Rightarrow> postprocess_loop p image_shape names (data(data_name \<mapsto> cv)))))"

text \<open>The sample returned by \<^verbatim>\<open>postprocess\<close> is the dict it has mutated.\<close>

definition postprocess :: "bool \<Rightarrow> processor \<Rightarrow> sample \<Rightarrow> error option \<times> sample" where
  "postprocess torch p data =
     (case rbind (py_getitem data ''image'') (get_shape torch) of
        Inl e \<Rightarrow> (Some e, data)
      | Inr image_shape \<Rightarrow>
          (case postprocess_loop p image_shape (data_fields p) data of
             (Some e, data') \<Rightarrow> (Some e, data')
           | (None, data') \<Rightarrow> remove_label_fields_from_data p data'))"

section \<open>Auxiliary notions for the statements\<close>




subsection \<open>A concrete processor\<close>

text \<open>
  An implementation of the abstract methods, for evaluating the functions above on
  concrete samples: the filter drops the records whose first value is a negative
  integer, the check wants four values or more in every record, and the conversions
  return the records as they are.
\<close>

definition keep_record :: "pyval \<Rightarrow> bool" where
  "keep_record r =
     (case r of PList (PInt x # _) \<Rightarrow> 0 \<le> x | PTuple (PInt x # _) \<Rightarrow> 0 \<le> x | _ \<Rightarrow> True)"

definition long_enough :: "pyval \<Rightarrow> bool" where
  "long_enough r = (case py_len r of Inr n \<Rightarrow> 4 \<le> n | Inl _ \<Rightarrow> False)"

definition example_methods :: abstract_methods where
  "example_methods =
     \<lparr>default_data_name = ''bboxes'',
      filter_op = (\<lambda>v shp. rbind (py_iter v) (\<lambda>rs. Inr (PList (filter keep_record rs)))),
      check = (\<lambda>v shp. case py_iter v of
                 Inl e \<Rightarrow> Some e
               | Inr rs \<Rightarrow> if list_all long_enough rs then None
                           else Some (ValueError ''Expected at least 4 values'')),
      convert_to_albumentations = (\<lambda>v shp. Inr v),
      convert_from_albumentations = (\<lambda>v shp. Inr v)\<rparr>"

definition example_processor ::
  "string \<Rightarrow> string list option \<Rightarrow> (string \<times> string) list option \<Rightarrow> processor" where
  "example_processor fmt labels targets =
     init_processor example_methods \<lparr>format = fmt, label_fields = labels\<rparr> targets"

subsection \<open>Well-formed samples\<close>

text \<open>The elements of an iterable value, and whether a value is iterable.\<close>

definition items_of :: "pyval \<Rightarrow> pyval list" where
  "items_of v = (case py_iter v of Inr xs \<Rightarrow> xs | Inl _ \<Rightarrow> [])"

definition iterable :: "pyval \<Rightarrow> bool" where
  "iterable v = (case py_iter v of Inr _ \<Rightarrow> True | Inl _ \<Rightarrow> False)"

text \<open>An annotation stream: an iterable of iterable records.\<close>

definition stream_ok :: "pyval \<Rightarrow> bool" where
  "stream_ok v = (iterable v \<and> list_all iterable (items_of v))"

text \<open>A sample is well formed for the streams \<open>names\<close> and the label fields \<open>flds\<close> when
  every stream it holds is an iterable of iterable records, every label column is present
  and iterable, no label field is named like a stream, and the stream names are distinct
  (as \<^verbatim>\<open>__init__\<close> and \<^verbatim>\<open>add_targets\<close> leave them).\<close>

definition well_formed :: "string list \<Rightarrow> string list \<Rightarrow> sample \<Rightarrow> bool" where
  "well_formed names flds data =
     (list_all (\<lambda>s. case data s of None \<Rightarrow> True | Some v \<Rightarrow> stream_ok v) names
      \<and> list_all (\<lambda>f. case data f of None \<Rightarrow> False | Some c \<Rightarrow> iterable c) flds
      \<and> list_all (\<lambda>f. f \<notin> set names) flds
      \<and> distinct names)"

text \<open>The records with one label column appended, and with all of them.\<close>

definition attach :: "pyval list \<Rightarrow> pyval list \<Rightarrow> pyval list" where
  "attach recs vals = map (\<lambda>dv. PList (items_of (fst dv) @ [snd dv])) (zip recs vals)"

definition column_items :: "sample \<Rightarrow> string \<Rightarrow> pyval list" where
  "column_items data f = (case data f of Some c \<Rightarrow> items_of c | None \<Rightarrow> [])"

definition labelled :: "pyval list list \<Rightarrow> pyval \<Rightarrow> pyval" where
  "labelled cols v = (if cols = [] then v else PList (foldl attach (items_of v) cols))"

text \<open>A sample with one box, one label and no score.\<close>

definition boxes_sample :: sample where
  "boxes_sample = map_of
     [(''image'', PNdarray [480, 640, 3]),
      (''bboxes'', PList [PTuple [PInt 0, PInt 0, PInt 1, PInt 1]]),
      (''labels'', PList [PInt 7]),
      (''scores'', PList [])]"

text \<open>The label fields of a processor; none when \<open>label_fields\<close> is \<open>None\<close>.\<close>

definition declared_label_fields :: "processor \<Rightarrow> string list" where
  "declared_label_fields p = (case label_fields (params p) of None \<Rightarrow> [] | Some flds \<Rightarrow> flds)"

text \<open>A sample with two streams of two boxes each, two labels and two scores.\<close>

definition two_streams_sample :: sample where
  "two_streams_sample = map_of
     [(''image'', PNdarray [480, 640, 3]),
      (''bboxes'', PList [PTuple [PInt 0, PInt 0, PInt 1, PInt 1],
                          PList [PInt 2, PInt 3, PInt 4, PInt 5]]),
      (''crowd'', PList [PList [PInt 5, PInt 5, PInt 6, PInt 6],
                         PList [PInt 1, PInt 1, PInt 2, PInt 2]]),
      (''labels'', PList [PInt 7, PInt 8]),
      (''scores'', PTuple [PInt 90, PInt 80])]"

text \<open>The stream whose record \<open>i\<close> is the list of the coordinates \<open>recs ! i\<close> followed by
  the entries at position \<open>i\<close> of the columns \<open>cols\<close>.\<close>

definition labelled_rows :: "pyval list list \<Rightarrow> pyval list list \<Rightarrow> pyval" where
  "labelled_rows recs cols =
     PList (map (\<lambda>i. PList (recs ! i @ map (\<lambda>c. c ! i) cols)) [0..<length recs])"

text \<open>The records of \<open>a\<close> are those of \<open>b\<close>, in the same order, whatever contains them.\<close>

definition same_records :: "pyval \<Rightarrow> pyval \<Rightarrow> bool" where
  "same_records a b = (iterable a \<and> map py_iter (items_of a) = map py_iter (items_of b))"

text \<open>A stream passes \<open>check\<close>, the filter returns all its records, and what the filter
  returns passes \<open>check\<close> again.\<close>

definition kept_and_valid :: "processor \<Rightarrow> nat list \<Rightarrow> pyval \<Rightarrow> bool" where
  "kept_and_valid p shp v =
     (check p v shp = None
      \<and> (case filter_op p v shp of
            Inl _ \<Rightarrow> False
          | Inr fv \<Rightarrow> same_records fv v \<and> check p fv shp = None))"

text \<open>The records of \<open>x\<close> hold the elements of the records of \<open>labelled_rows recs cols\<close>.\<close>

definition labelled_like :: "pyval list list \<Rightarrow> pyval list list \<Rightarrow> pyval \<Rightarrow> bool" where
  "labelled_like recs cols x =
     (case py_iter x of
        Inl _ \<Rightarrow> False
      | Inr rs \<Rightarrow> map py_iter rs
                 = map (\<lambda>i. Inr (recs ! i @ map (\<lambda>c. c ! i) cols)) [0..<length recs])"

text \<open>
  A sample as a transform leaves it: the records carry their label, and the first record
  of \<open>crowd\<close> has left the frame.
\<close>

definition transformed_sample :: sample where
  "transformed_sample = map_of
     [(''image'', PNdarray [480, 640, 3]),
      (''bboxes'', PList [PList [PInt 0, PInt 0, PInt 1, PInt 1, PInt 7],
                          PList [PInt 2, PInt 3, PInt 4, PInt 5, PInt 8]]),
      (''crowd'', PList [PList [PInt (- 5), PInt 5, PInt 6, PInt 6, PInt 7],
                         PList [PInt 1, PInt 1, PInt 2, PInt 2, PInt 8]]),
      (''labels'', PList [PInt 7, PInt 8])]"

section \<open>Properties of to_tuple\<close>

text \<open>
  C6. The examples of the specification: \<open>to_tuple(5) = (-5, 5)\<close>,
  \<open>to_tuple(5, low=2) = (2, 5)\<close>, \<open>to_tuple((3, 1)) = (1, 3)\<close>,
  \<open>to_tuple(4, bias=10) = (6, 14)\<close>; \<open>to_tuple(5, low=2, bias=1)\<close> and
  \<open>to_tuple("x")\<close> raise \<open>ValueError\<close>.
\<close>

theorem to_tuple_examples:
  "to_tuple (PInt 5) PNone PNone = Inr (PInt (- 5), PInt 5)
   \<and> to_tuple (PInt 5) (PInt 2) PNone = Inr (PInt 2, PInt 5)
   \<and> to_tuple (PTuple [PInt 3, PInt 1]) PNone PNone = Inr (PInt 1, PInt 3)
   \<and> to_tuple (PInt 4) PNone (PInt 10) = Inr (PInt 6, PInt 14)
   \<and> to_tuple (PInt 5) (PInt 2) (PInt 1) = Inl (ValueError low_bias_msg)
   \<and> to_tuple (PStr ''x'') PNone PNone = Inl (ValueError param_shape_msg)"
  by (simp add: to_tuple_def min_max_of_def PAIR_def rbind_def py_min2_def py_max2_def
      py_lt_def py_add_def)















text \<open>
  C8. \<open>to_tuple\<close> raises \<open>ValueError\<close> when \<open>low\<close> and \<open>bias\<close> are both given, whatever
  \<open>param\<close> is, and when \<open>param\<close> is neither a scalar nor a sequence of two elements; the
  check of \<open>low\<close> and \<open>bias\<close> comes first.
\<close>

theorem to_tuple_invalid_arguments:
  "(low \<noteq> PNone \<and> bias \<noteq> PNone \<longrightarrow> to_tuple param low bias = Inl (ValueError low_bias_msg))
   \<and> (\<not> is_scalar param \<and> \<not> (is_Sequence param \<and> py_len param = Inr 2) \<longrightarrow>
        to_tuple param low bias =
          Inl (ValueError (if low \<noteq> PNone \<and> bias \<noteq> PNone then low_bias_msg
                           else param_shape_msg)))"
  by (cases param) (simp_all add: to_tuple_def min_max_of_def PAIR_def rbind_def)

theorem to_tuple_invalid_arguments_witness:
  "to_tuple (PStr ''x'') (PInt 2) (PInt 1) = Inl (ValueError low_bias_msg)
   \<and> to_tuple (PList [PInt 1, PInt 2, PInt 3]) PNone PNone = Inl (ValueError param_shape_msg)"
  using to_tuple_invalid_arguments [of "PInt 2" "PInt 1" "PStr ''x''"]
    to_tuple_invalid_arguments [of PNone PNone "PList [PInt 1, PInt 2, PInt 3]"]
  by simp

section \<open>Properties of get_shape\<close>



section \<open>Properties of the processor\<close>

lemma add_targets_default_data_name:
  "default_data_name (add_targets p ts) = default_data_name p"
  by (induction p ts rule: add_targets.induct) simp_all

lemma add_targets_data_fields:
  "distinct (map fst ts) \<Longrightarrow>
   data_fields (add_targets p ts) =
     data_fields p @
       map fst (filter (\<lambda>kv. snd kv = default_data_name p \<and> fst kv \<notin> set (data_fields p)) ts)"
proof (induction p ts rule: add_targets.induct)
  case (1 p)
  then show ?case by simp
next
  case (2 p k v rest)
  let ?p' = "if v = default_data_name p \<and> k \<notin> set (data_fields p)
             then p\<lparr>data_fields := data_fields p @ [k]\<rparr> else p"
  from "2.prems" have d: "distinct (map fst rest)" and k: "k \<notin> fst ` set rest" by auto
  have same: "filter (\<lambda>kv. snd kv = default_data_name ?p' \<and> fst kv \<notin> set (data_fields ?p')) rest
      = filter (\<lambda>kv. snd kv = default_data_name p \<and> fst kv \<notin> set (data_fields p)) rest"
    using k by (intro filter_cong) (auto simp: image_iff)
  from "2.IH" [OF d] same show ?case by simp
qed

lemma add_targets_unchanged:
  "\<forall>kv \<in> set ts. snd kv \<noteq> default_data_name p \<or> fst kv \<in> set (data_fields p) \<Longrightarrow>
   add_targets p ts = p"
  by (induction p ts rule: add_targets.induct) auto

text \<open>
  C4. \<open>add_targets\<close> appends to \<open>data_fields\<close>, in the order of the mapping, exactly the
  keys whose value is the default stream name and that are not in \<open>data_fields\<close> yet;
  when no key is of that kind the processor is unchanged. The keys of a dict are
  distinct. The function has no failing branch.
\<close>

theorem add_targets_accepts:
  assumes "distinct (map fst additional_targets)"
  shows "data_fields (add_targets p additional_targets) =
           data_fields p @
             map fst (filter (\<lambda>kv. snd kv = default_data_name p
                                \<and> fst kv \<notin> set (data_fields p)) additional_targets)
     \<and> ((\<forall>kv \<in> set additional_targets.
            snd kv \<noteq> default_data_name p \<or> fst kv \<in> set (data_fields p)) \<longrightarrow>
          add_targets p additional_targets = p)"
  using add_targets_data_fields [OF assms] add_targets_unchanged by blast

theorem add_targets_accepts_witness:
  "data_fields (add_targets (example_processor ''coco'' None None)
       [(''crowd'', ''bboxes''), (''joints'', ''keypoints''), (''bboxes'', ''bboxes'')])
     = [''bboxes'', ''crowd'']
   \<and> add_targets (example_processor ''coco'' None None)
       [(''joints'', ''keypoints''), (''bboxes'', ''bboxes'')]
     = example_processor ''coco'' None None"
  using add_targets_accepts [of "[(''crowd'', ''bboxes''), (''joints'', ''keypoints''),
        (''bboxes'', ''bboxes'')]" "example_processor ''coco'' None None"]
    add_targets_accepts [of "[(''joints'', ''keypoints''), (''bboxes'', ''bboxes'')]"
        "example_processor ''coco'' None None"]
  by (simp add: example_processor_def init_processor_def example_methods_def)

text \<open>
  C5. With the canonical format, \<open>check_and_convert\<close> in direction \<open>to\<close> or \<open>from\<close> runs
  \<open>check\<close> and returns the records it was given, or the error of \<open>check\<close>; whatever the
  two conversions are, they play no part in the result.
\<close>

theorem check_and_convert_canonical:
  assumes "format (params p) = ''albumentations''"
    and "direction = ''to'' \<or> direction = ''from''"
  shows "check_and_convert
           (p\<lparr>convert_to_albumentations := to_alb, convert_from_albumentations := from_alb\<rparr>)
           data image_shape direction =
         (case check p data image_shape of Some e \<Rightarrow> Inl e | None \<Rightarrow> Inr data)"
  using assms by (simp add: check_and_convert_def)

theorem check_and_convert_canonical_witness:
  "check_and_convert
     ((example_processor ''albumentations'' None None)
        \<lparr>convert_to_albumentations := (\<lambda>v shp. Inr PNone),
         convert_from_albumentations := (\<lambda>v shp. Inl TypeError)\<rparr>)
     (PList [PTuple [PInt 0, PInt 0, PInt 1, PInt 1]]) [480, 640] ''from''
   = Inr (PList [PTuple [PInt 0, PInt 0, PInt 1, PInt 1]])"
  using check_and_convert_canonical [where p = "example_processor ''albumentations'' None None"
      and direction = "''from''" and to_alb = "\<lambda>v shp. Inr PNone"
      and from_alb = "\<lambda>v shp. Inl TypeError"
      and data = "PList [PTuple [PInt 0, PInt 0, PInt 1, PInt 1]]"
      and image_shape = "[480, 640]"]
  by (simp add: example_processor_def init_processor_def example_methods_def long_enough_def)

text \<open>
  C10. With the canonical format the result of \<open>check_and_convert\<close> is that of the
  validation for every direction, also one that is neither \<open>to\<close> nor \<open>from\<close>; the
  invalid-direction error is what such a direction gives with any other format.
\<close>

theorem check_and_convert_direction:
  "(format (params p) = ''albumentations'' \<longrightarrow>
      check_and_convert p data image_shape direction =
        (case check p data image_shape of Some e \<Rightarrow> Inl e | None \<Rightarrow> Inr data))
   \<and> (format (params p) \<noteq> ''albumentations'' \<and> direction \<noteq> ''to'' \<and> direction \<noteq> ''from'' \<longrightarrow>
      check_and_convert p data image_shape direction =
        Inl (ValueError (invalid_direction_msg direction)))"
  by (simp add: check_and_convert_def)

theorem check_and_convert_direction_witness:
  "check_and_convert (example_processor ''albumentations'' None None)
     (PList [PTuple [PInt 0, PInt 0, PInt 1, PInt 1]]) [480, 640] ''sideways''
   = Inr (PList [PTuple [PInt 0, PInt 0, PInt 1, PInt 1]])
   \<and> check_and_convert (example_processor ''coco'' None None)
     (PList [PTuple [PInt 0, PInt 0, PInt 1, PInt 1]]) [480, 640] ''sideways''
   = Inl (ValueError ''Invalid direction. Must be `to` or `from`. Got `sideways`'')"
  using check_and_convert_direction [of "example_processor ''albumentations'' None None"
      "PList [PTuple [PInt 0, PInt 0, PInt 1, PInt 1]]" "[480, 640]" "''sideways''"]
    check_and_convert_direction [of "example_processor ''coco'' None None"
      "PList [PTuple [PInt 0, PInt 0, PInt 1, PInt 1]]" "[480, 640]" "''sideways''"]
  by (simp add: example_processor_def init_processor_def example_methods_def long_enough_def
      invalid_direction_msg_def)

subsection \<open>Label attachment\<close>

lemma rbind_simps [simp]: "rbind (Inl e) f = Inl e" "rbind (Inr x) f = f x"
  by (simp_all add: rbind_def)

lemma py_iter_len: "py_iter v = Inr xs \<Longrightarrow> py_len v = Inr (length xs)"
  by (induction v rule: py_iter.induct) auto

lemma iterableE: "iterable v \<Longrightarrow> py_iter v = Inr (items_of v)"
  by (auto simp: iterable_def items_of_def split: sum.splits)

lemma iterable_len: "iterable v \<Longrightarrow> py_len v = Inr (length (items_of v))"
  by (simp add: iterableE py_iter_len)

lemma rmap_total: "(\<And>x. x \<in> set xs \<Longrightarrow> g x = Inr (h x)) \<Longrightarrow> rmap g xs = Inr (map h xs)"
  by (induction xs) simp_all

lemma rmap_append_value:
  assumes "list_all iterable recs"
  shows "rmap append_value (zip recs vals) = Inr (attach recs vals)"
  unfolding attach_def
proof (rule rmap_total)
  fix x assume "x \<in> set (zip recs vals)"
  then have "fst x \<in> set recs" using set_zip_leftD [of "fst x" "snd x" recs vals] by simp
  with assms have "iterable (fst x)" by (simp add: list_all_iff)
  then show "append_value x = Inr (PList (items_of (fst x) @ [snd x]))"
    by (cases x) (simp add: append_value_def iterableE)
qed

lemma data_with_added_field_eq:
  assumes "data s = Some v" "stream_ok v" "data f = Some c" "iterable c"
  shows "data_with_added_field data s f =
     (if length (items_of v) \<noteq> length (items_of c)
      then Inl (ValueError (length_mismatch_msg (length (items_of v)) (length (items_of c))))
      else Inr (PList (attach (items_of v) (items_of c))))"
  using assms
  by (simp add: data_with_added_field_def py_getitem_def stream_ok_def iterable_len iterableE
      rmap_append_value)

lemma items_of_PList [simp]: "items_of (PList xs) = xs"
  by (simp add: items_of_def)

lemma iterable_PList [simp]: "iterable (PList xs)"
  by (simp add: iterable_def)

lemma length_attach: "length vals = length recs \<Longrightarrow> length (attach recs vals) = length recs"
  by (simp add: attach_def)

lemma stream_ok_attach: "stream_ok (PList (attach recs vals))"
  by (auto simp: stream_ok_def attach_def list_all_iff)

lemma add_fields_loop_frame:
  "add_fields_loop s flds data = (r, d') \<Longrightarrow> k \<noteq> s \<Longrightarrow> d' k = data k"
  by (induction s flds data rule: add_fields_loop.induct) (auto split: sum.splits)

lemma add_fields_loop_outcome:
  assumes "data s = Some v" "stream_ok v"
    and "list_all (\<lambda>f. case data f of None \<Rightarrow> False | Some c \<Rightarrow> iterable c) flds"
    and "s \<notin> set flds"
    and "add_fields_loop s flds data = (r, d')"
  shows "(\<exists>v'. d' s = Some v' \<and> stream_ok v' \<and> length (items_of v') = length (items_of v))
    \<and> (r = None \<longrightarrow>
          (\<forall>f \<in> set flds. length (column_items data f) = length (items_of v))
          \<and> d' = (if flds = [] then data
                   else data(s \<mapsto> labelled (map (column_items data) flds) v)))
    \<and> (r \<noteq> None \<longrightarrow>
          (\<exists>f \<in> set flds. length (column_items data f) \<noteq> length (items_of v)
             \<and> r = Some (ValueError (length_mismatch_msg (length (items_of v))
                                        (length (column_items data f))))))"
  using assms
proof (induction flds arbitrary: data v)
  case Nil
  then show ?case by auto
next
  case (Cons f flds)
  from Cons.prems obtain c where c: "data f = Some c" "iterable c"
    by (auto split: option.splits)
  have sf: "s \<noteq> f" using Cons.prems by auto
  note step = data_with_added_field_eq [OF Cons.prems(1,2) c]
  show ?case
  proof (cases "length (items_of v) = length (items_of c)")
    case False
    with step Cons.prems(5) have "r = Some (ValueError (length_mismatch_msg (length (items_of v))
        (length (items_of c))))" "d' = data"
      by auto
    with False c Cons.prems(1,2) show ?thesis
      by (auto simp: column_items_def)
  next
    case True
    let ?v1 = "PList (attach (items_of v) (items_of c))"
    let ?d1 = "data(s \<mapsto> ?v1)"
    from True step Cons.prems(5) have loop: "add_fields_loop s flds ?d1 = (r, d')"
      by simp
    have cols: "column_items ?d1 g = column_items data g" if "g \<in> set flds" for g
      using that Cons.prems(4) by (auto simp: column_items_def)
    have wf1: "list_all (\<lambda>f. case ?d1 f of None \<Rightarrow> False | Some c \<Rightarrow> iterable c) flds"
      using Cons.prems(3,4) by (auto simp: list_all_iff)
    have len1: "length (items_of ?v1) = length (items_of v)"
      using True by (simp add: length_attach)
    have a1: "?d1 s = Some ?v1" by simp
    have a4: "s \<notin> set flds" using Cons.prems(4) by simp
    note IH = Cons.IH [OF a1 stream_ok_attach wf1 a4 loop]
    have colf: "column_items data f = items_of c" using c by (simp add: column_items_def)
    have map_cols: "map (column_items ?d1) flds = map (column_items data) flds"
      using cols by (intro map_cong) auto
    have lab: "(if flds = [] then ?d1 else ?d1(s \<mapsto> labelled (map (column_items ?d1) flds) ?v1))
        = data(s \<mapsto> labelled (map (column_items data) (f # flds)) v)"
      by (simp add: labelled_def map_cols colf)
    from IH have p1: "\<exists>v'. d' s = Some v' \<and> stream_ok v'
        \<and> length (items_of v') = length (items_of v)"
      unfolding len1 by blast
    from IH have p2: "r = None \<longrightarrow>
        (\<forall>g \<in> set flds. length (column_items ?d1 g) = length (items_of v))
        \<and> d' = data(s \<mapsto> labelled (map (column_items data) (f # flds)) v)"
      unfolding len1 lab by blast
    from IH have p3: "r \<noteq> None \<longrightarrow>
        (\<exists>g \<in> set flds. length (column_items ?d1 g) \<noteq> length (items_of v)
           \<and> r = Some (ValueError (length_mismatch_msg (length (items_of v))
                                      (length (column_items ?d1 g)))))"
      unfolding len1 by blast
    have q2: "r = None \<longrightarrow>
        (\<forall>g \<in> set (f # flds). length (column_items data g) = length (items_of v))"
      using p2 cols colf True by (metis set_ConsD)
    have q3: "r \<noteq> None \<longrightarrow>
        (\<exists>g \<in> set (f # flds). length (column_items data g) \<noteq> length (items_of v)
           \<and> r = Some (ValueError (length_mismatch_msg (length (items_of v))
                                      (length (column_items data g)))))"
      using p3 cols by (metis list.set_intros(2))
    have q4: "r = None \<longrightarrow> d' = (if f # flds = [] then data
        else data(s \<mapsto> labelled (map (column_items data) (f # flds)) v))"
      using p2 by simp
    from p1 q2 q3 q4 show ?thesis by blast
  qed
qed

lemma well_formed_Cons:
  "well_formed (s # names) flds data \<longleftrightarrow>
     (case data s of None \<Rightarrow> True | Some v \<Rightarrow> stream_ok v) \<and> s \<notin> set names \<and> s \<notin> set flds
     \<and> well_formed names flds data"
  by (auto simp: well_formed_def list_all_iff)

lemma well_formed_agree:
  assumes "well_formed names flds data" "\<And>k. k \<noteq> s \<Longrightarrow> d1 k = data k"
    "s \<notin> set names" "s \<notin> set flds"
  shows "well_formed names flds d1"
proof -
  have "d1 k = data k" if "k \<in> set names \<or> k \<in> set flds" for k
    using that assms by metis
  with assms(1) show ?thesis
    by (simp add: well_formed_def list_all_iff)
qed

lemma column_items_agree: "d1 f = data f \<Longrightarrow> column_items d1 f = column_items data f"
  by (simp add: column_items_def)

lemma add_streams_loop_outcome:
  assumes "well_formed names flds data" and "add_streams_loop names flds data = (r, d')"
  shows "(\<forall>k. k \<notin> set names \<longrightarrow> d' k = data k)
    \<and> (r = None \<longrightarrow>
         (\<forall>s \<in> set names. case data s of
              None \<Rightarrow> d' s = None
            | Some v \<Rightarrow>
                (\<forall>f \<in> set flds. length (column_items data f) = length (items_of v))
                \<and> d' s = Some (labelled (map (column_items data) flds) v)))
    \<and> (r \<noteq> None \<longrightarrow>
         (\<exists>s \<in> set names. \<exists>v. data s = Some v \<and>
            (\<exists>f \<in> set flds. length (column_items data f) \<noteq> length (items_of v)
               \<and> r = Some (ValueError (length_mismatch_msg (length (items_of v))
                                          (length (column_items data f)))))))"
  using assms
proof (induction names arbitrary: data)
  case Nil
  then show ?case by auto
next
  case (Cons s names)
  from Cons.prems(1) have wf: "well_formed names flds data"
    and s: "s \<notin> set names" "s \<notin> set flds"
    and sv: "case data s of None \<Rightarrow> True | Some v \<Rightarrow> stream_ok v"
    by (simp_all add: well_formed_Cons)
  have cols_ok: "list_all (\<lambda>f. case data f of None \<Rightarrow> False | Some c \<Rightarrow> iterable c) flds"
    using wf by (simp add: well_formed_def)
  show ?case
  proof (cases "data s")
    case None
    with Cons.prems(2) have loop: "add_streams_loop names flds data = (r, d')" by simp
    note IH = Cons.IH [OF wf loop]
    from IH s have "d' s = None" using None by metis
    with IH None show ?thesis by auto
  next
    case (Some v)
    with sv have ok: "stream_ok v" by simp
    obtain r1 d1 where inner: "add_fields_loop s flds data = (r1, d1)"
      by (cases "add_fields_loop s flds data")
    note out = add_fields_loop_outcome [OF Some ok cols_ok s(2) inner]
    have agree: "d1 k = data k" if "k \<noteq> s" for k
      using add_fields_loop_frame [OF inner that] .
    show ?thesis
    proof (cases r1)
      case (Some e)
      with inner Cons.prems(2) \<open>data s = Some v\<close> have rd: "r = r1" "d' = d1" by auto
      from out Some rd have "\<exists>f \<in> set flds. length (column_items data f) \<noteq> length (items_of v)
           \<and> r = Some (ValueError (length_mismatch_msg (length (items_of v))
                                      (length (column_items data f))))"
        by auto
      with \<open>data s = Some v\<close> have "\<exists>s' \<in> set (s # names). \<exists>v. data s' = Some v \<and>
            (\<exists>f \<in> set flds. length (column_items data f) \<noteq> length (items_of v)
               \<and> r = Some (ValueError (length_mismatch_msg (length (items_of v))
                                          (length (column_items data f)))))"
        by auto
      moreover have "\<forall>k. k \<notin> set (s # names) \<longrightarrow> d' k = data k"
        using agree rd by auto
      moreover have "r \<noteq> None" using rd Some by simp
      ultimately show ?thesis by blast
    next
      case None
      with inner Cons.prems(2) \<open>data s = Some v\<close>
      have loop: "add_streams_loop names flds d1 = (r, d')" by simp
      from out None have match: "\<forall>f \<in> set flds. length (column_items data f) = length (items_of v)"
        and d1: "d1 = (if flds = [] then data
                       else data(s \<mapsto> labelled (map (column_items data) flds) v))"
        by auto
      have d1s: "d1 s = Some (labelled (map (column_items data) flds) v)"
        using d1 \<open>data s = Some v\<close> by (simp add: labelled_def)
      have wf1: "well_formed names flds d1"
        using well_formed_agree [OF wf agree s] by simp
      note IH = Cons.IH [OF wf1 loop]
      have cols: "column_items d1 f = column_items data f" if "f \<in> set flds" for f
        using that s(2) agree by (intro column_items_agree) metis
      have mapcols: "map (column_items d1) flds = map (column_items data) flds"
        using cols by (intro map_cong) auto
      have names_agree: "d1 k = data k" if "k \<in> set names" for k
        using that s(1) agree by metis
      from IH have frame: "\<forall>k. k \<notin> set (s # names) \<longrightarrow> d' k = data k"
        using agree by auto
      from IH s(1) d1s have d's: "d' s = Some (labelled (map (column_items data) flds) v)"
        by metis
      have ok_case: "r = None \<longrightarrow>
         (\<forall>s' \<in> set (s # names). case data s' of
              None \<Rightarrow> d' s' = None
            | Some v \<Rightarrow>
                (\<forall>f \<in> set flds. length (column_items data f) = length (items_of v))
                \<and> d' s' = Some (labelled (map (column_items data) flds) v))"
      proof (intro impI ballI)
        fix s' assume rn: "r = None" and mem: "s' \<in> set (s # names)"
        show "case data s' of
              None \<Rightarrow> d' s' = None
            | Some v \<Rightarrow>
                (\<forall>f \<in> set flds. length (column_items data f) = length (items_of v))
                \<and> d' s' = Some (labelled (map (column_items data) flds) v)"
        proof (cases "s' = s")
          case True
          with \<open>data s = Some v\<close> match d's show ?thesis by simp
        next
          case False
          with mem have m: "s' \<in> set names" by simp
          from IH rn m have "case d1 s' of
              None \<Rightarrow> d' s' = None
            | Some v \<Rightarrow>
                (\<forall>f \<in> set flds. length (column_items d1 f) = length (items_of v))
                \<and> d' s' = Some (labelled (map (column_items d1) flds) v)"
            by blast
          then show ?thesis
            unfolding names_agree [OF m] mapcols using cols
            by (auto split: option.splits)
        qed
      qed
      have err_case: "r \<noteq> None \<longrightarrow>
         (\<exists>s' \<in> set (s # names). \<exists>v. data s' = Some v \<and>
            (\<exists>f \<in> set flds. length (column_items data f) \<noteq> length (items_of v)
               \<and> r = Some (ValueError (length_mismatch_msg (length (items_of v))
                                          (length (column_items data f))))))"
      proof
        assume "r \<noteq> None"
        with IH obtain s' v' f where m: "s' \<in> set names" and v': "d1 s' = Some v'"
          and f: "f \<in> set flds" "length (column_items d1 f) \<noteq> length (items_of v')"
            "r = Some (ValueError (length_mismatch_msg (length (items_of v'))
                                          (length (column_items d1 f))))"
          by blast
        from v' names_agree [OF m] have "data s' = Some v'" by simp
        moreover from f cols have "length (column_items data f) \<noteq> length (items_of v')"
          "r = Some (ValueError (length_mismatch_msg (length (items_of v'))
                                          (length (column_items data f))))"
          by simp_all
        ultimately show "\<exists>s' \<in> set (s # names). \<exists>v. data s' = Some v \<and>
            (\<exists>f \<in> set flds. length (column_items data f) \<noteq> length (items_of v)
               \<and> r = Some (ValueError (length_mismatch_msg (length (items_of v))
                                          (length (column_items data f)))))"
          using m f(1) by auto
      qed
      from frame ok_case err_case show ?thesis by blast
    qed
  qed
qed

lemma add_streams_loop_absent:
  "\<forall>x \<in> set pre. data x = None \<Longrightarrow>
   add_streams_loop (pre @ rest) flds data = add_streams_loop rest flds data"
  by (induction pre) simp_all

lemma py_len_neq_items:
  assumes "stream_ok v" "iterable c" "py_len v \<noteq> py_len c"
  shows "length (items_of v) \<noteq> length (items_of c)"
  using assms by (auto simp: stream_ok_def iterable_len)

lemma well_formed_stream:
  "well_formed names flds data \<Longrightarrow> s \<in> set names \<Longrightarrow> data s = Some v \<Longrightarrow> stream_ok v"
  by (auto simp: well_formed_def list_all_iff)

lemma well_formed_column:
  "well_formed names flds data \<Longrightarrow> f \<in> set flds \<Longrightarrow>
   \<exists>c. data f = Some c \<and> iterable c \<and> column_items data f = items_of c"
  by (auto simp: well_formed_def list_all_iff column_items_def split: option.splits)

text \<open>
  C3, amended. On a well-formed sample in which the length of some declared label column
  differs from the length of a stream, \<open>preprocess\<close> raises the length-mismatch error,
  whose message gives the length of a stream and of a label column of the sample, in
  that order. The entries that are not streams are as they were. The streams are as they
  were too when the mismatch is met at once, between the first stream of \<open>data_fields\<close>
  that the sample holds and the first label field; a stream or a label field handled
  before the mismatch leaves a rebuilt stream behind.
\<close>

theorem preprocess_length_mismatch:
  assumes lf: "label_fields (params p) = Some flds"
    and wf: "well_formed (data_fields p) flds data"
    and mis: "s \<in> set (data_fields p)" "f \<in> set flds" "data s = Some v" "data f = Some c"
      "py_len v \<noteq> py_len c"
  shows "\<exists>n m d'. preprocess torch p data = (Some (ValueError (length_mismatch_msg n m)), d')
     \<and> n \<noteq> m
     \<and> (\<exists>s' \<in> set (data_fields p). \<exists>f' \<in> set flds. \<exists>v' c'.
           data s' = Some v' \<and> data f' = Some c' \<and> py_len v' = Inr n \<and> py_len c' = Inr m)
     \<and> (\<forall>k. k \<notin> set (data_fields p) \<longrightarrow> d' k = data k)
     \<and> (\<forall>pre s1 post f1 rest v1 c1.
           data_fields p = pre @ s1 # post \<and> (\<forall>x \<in> set pre. data x = None)
           \<and> flds = f1 # rest \<and> data s1 = Some v1 \<and> data f1 = Some c1
           \<and> py_len v1 \<noteq> py_len c1 \<longrightarrow> d' = data)"
proof -
  obtain r d' where loop: "add_streams_loop (data_fields p) flds data = (r, d')"
    by (cases "add_streams_loop (data_fields p) flds data")
  note out = add_streams_loop_outcome [OF wf loop]
  have ok_v: "stream_ok v" using well_formed_stream [OF wf mis(1,3)] .
  from well_formed_column [OF wf mis(2)] mis(4)
  have ok_c: "iterable c" "column_items data f = items_of c" by auto
  have "r \<noteq> None"
  proof
    assume "r = None"
    with out mis(1,3) have "\<forall>f \<in> set flds. length (column_items data f) = length (items_of v)"
      by (auto split: option.splits)
    with mis(2) ok_c py_len_neq_items [OF ok_v ok_c(1) mis(5)] show False by auto
  qed
  with out obtain s' v' f' where bad: "s' \<in> set (data_fields p)" "data s' = Some v'"
    "f' \<in> set flds" "length (column_items data f') \<noteq> length (items_of v')"
    "r = Some (ValueError (length_mismatch_msg (length (items_of v'))
                                          (length (column_items data f'))))"
    by blast
  let ?n = "length (items_of v')" and ?m = "length (column_items data f')"
  from well_formed_column [OF wf bad(3)] obtain c' where
    c': "data f' = Some c'" "iterable c'" "column_items data f' = items_of c'" by blast
  have lens: "py_len v' = Inr ?n" "py_len c' = Inr ?m"
    using well_formed_stream [OF wf bad(1,2)] c' by (simp_all add: stream_ok_def iterable_len)
  have pre: "preprocess torch p data = (Some (ValueError (length_mismatch_msg ?n ?m)), d')"
    using loop bad(5) lf by (simp add: preprocess_def add_label_fields_to_data_def)
  have first: "d' = data"
    if h: "data_fields p = pre @ s1 # post" "\<forall>x \<in> set pre. data x = None" "flds = f1 # rest"
      "data s1 = Some v1" "data f1 = Some c1" "py_len v1 \<noteq> py_len c1"
    for pre s1 post f1 rest v1 c1
  proof -
    have s1: "stream_ok v1" using well_formed_stream [OF wf _ h(4)] h(1) by simp
    from well_formed_column [OF wf, of f1] h(3,5) have c1: "iterable c1" by auto
    have "data_with_added_field data s1 f1 =
        Inl (ValueError (length_mismatch_msg (length (items_of v1)) (length (items_of c1))))"
      using data_with_added_field_eq [OF h(4) s1 h(5) c1] py_len_neq_items [OF s1 c1 h(6)]
      by simp
    then have "add_streams_loop (data_fields p) flds data =
        (Some (ValueError (length_mismatch_msg (length (items_of v1)) (length (items_of c1)))),
         data)"
      unfolding h(1) h(3) add_streams_loop_absent [OF h(2)] using h(4) by simp
    with loop show ?thesis by simp
  qed
  have A: "?n \<noteq> ?m" using bad(4) by simp
  have B: "\<exists>s' \<in> set (data_fields p). \<exists>f' \<in> set flds. \<exists>v' c'.
           data s' = Some v' \<and> data f' = Some c' \<and> py_len v' = Inr ?n \<and> py_len c' = Inr ?m"
    using bad(1,2,3) c'(1) lens by blast
  have C: "\<forall>k. k \<notin> set (data_fields p) \<longrightarrow> d' k = data k"
    using out by blast
  have D: "\<forall>pre s1 post f1 rest v1 c1.
           data_fields p = pre @ s1 # post \<and> (\<forall>x \<in> set pre. data x = None)
           \<and> flds = f1 # rest \<and> data s1 = Some v1 \<and> data f1 = Some c1
           \<and> py_len v1 \<noteq> py_len c1 \<longrightarrow> d' = data"
    using first by blast
  from pre A B C D show ?thesis by blast
qed

lemma example_processor_simps:
  "data_fields (example_processor fmt labels None) = [''bboxes'']"
  "params (example_processor fmt labels None) = \<lparr>format = fmt, label_fields = labels\<rparr>"
  by (simp_all add: example_processor_def init_processor_def example_methods_def)

theorem preprocess_length_mismatch_witness:
  "\<exists>n m d'. preprocess True (example_processor ''albumentations'' (Some [''labels'', ''scores'']) None)
       boxes_sample = (Some (ValueError (length_mismatch_msg n m)), d') \<and> n \<noteq> m"
  using preprocess_length_mismatch [where p = "example_processor ''albumentations''
        (Some [''labels'', ''scores'']) None" and flds = "[''labels'', ''scores'']"
      and data = boxes_sample and s = "''bboxes''" and f = "''scores''"
      and v = "PList [PTuple [PInt 0, PInt 0, PInt 1, PInt 1]]" and c = "PList []"
      and torch = True]
  by (simp add: example_processor_simps well_formed_def boxes_sample_def stream_ok_def
      iterable_def items_of_def) blast

text \<open>
  C3, as the code has it. With the label fields \<open>labels\<close> and \<open>scores\<close>, one box, one
  label and no score, the error is raised for \<open>scores\<close>, after the stream was rebuilt
  with the label appended.
\<close>

theorem preprocess_mutates_before_mismatch:
  "fst (preprocess True (example_processor ''albumentations'' (Some [''labels'', ''scores'']) None)
         boxes_sample)
     = Some (ValueError ''The lengths of bboxes and labels do not match. Got 1 and 0 respectively.'')
   \<and> snd (preprocess True (example_processor ''albumentations'' (Some [''labels'', ''scores'']) None)
         boxes_sample) ''bboxes''
     = Some (PList [PList [PInt 0, PInt 0, PInt 1, PInt 1, PInt 7]])
   \<and> boxes_sample ''bboxes'' = Some (PList [PTuple [PInt 0, PInt 0, PInt 1, PInt 1]])"
  by (simp add: preprocess_def add_label_fields_to_data_def example_processor_simps
      boxes_sample_def data_with_added_field_def py_getitem_def append_value_def
      length_mismatch_msg_def str_of_nat.simps)

subsection \<open>Label detachment and the round trip\<close>

lemma attach_nth:
  "i < length recs \<Longrightarrow> length vals = length recs \<Longrightarrow>
   attach recs vals ! i = PList (items_of (recs ! i) @ [vals ! i])"
  by (simp add: attach_def)

lemma foldl_attach:
  "\<forall>c \<in> set (c0 # cs). length c = length recs \<Longrightarrow>
   foldl attach recs (c0 # cs) =
     map (\<lambda>i. PList (items_of (recs ! i) @ map (\<lambda>c. c ! i) (c0 # cs))) [0..<length recs]"
proof (induction cs arbitrary: c0 recs)
  case Nil
  then have len: "length c0 = length recs" by simp
  show ?case
    by (rule nth_equalityI) (simp_all add: len length_attach attach_nth)
next
  case (Cons c1 cs)
  then have len: "length c0 = length recs" by simp
  have len': "length (attach recs c0) = length recs" using len by (simp add: length_attach)
  have "\<forall>c \<in> set (c1 # cs). length c = length (attach recs c0)"
    using Cons.prems len' by simp
  from Cons.IH [OF this]
  have "foldl attach recs (c0 # c1 # cs) =
     map (\<lambda>i. PList (items_of (attach recs c0 ! i) @ map (\<lambda>c. c ! i) (c1 # cs)))
       [0..<length recs]"
    by (simp add: len')
  also have "\<dots> = map (\<lambda>i. PList (items_of (recs ! i) @ map (\<lambda>c. c ! i) (c0 # c1 # cs)))
       [0..<length recs]"
    by (rule map_cong) (simp_all add: attach_nth len)
  finally show ?case .
qed

lemma labelled_eq:
  assumes "cols \<noteq> []" "\<forall>c \<in> set cols. length c = length (items_of v)"
  shows "labelled cols v = labelled_rows (map items_of (items_of v)) cols"
proof -
  from assms(1) obtain c0 cs where cols: "cols = c0 # cs" by (cases cols) auto
  from foldl_attach [of c0 cs "items_of v"] assms(2)
  have "foldl attach (items_of v) cols =
     map (\<lambda>i. PList (items_of (items_of v ! i) @ map (\<lambda>c. c ! i) cols))
       [0..<length (items_of v)]"
    unfolding cols by blast
  then show ?thesis
    using assms(1) by (simp add: labelled_def labelled_rows_def)
qed

lemma nth_py_tail:
  "idx < length row \<Longrightarrow>
   nth_py (its @ row) (- int (length row) + int idx) = Inr (row ! idx)"
  by (simp add: nth_py_def nth_append nat_int_add)

lemma py_index_iter: "py_iter r = Inr xs \<Longrightarrow> py_index r i = nth_py xs i"
proof (induction r rule: py_iter.induct)
  case (1 s)
  then show ?case by (auto simp: nth_py_def rbind_def)
qed auto

lemma py_slice_iter:
  "py_iter r = Inr xs \<Longrightarrow>
   \<exists>r'. py_slice_to r stop = Inr r' \<and> py_iter r' = Inr (take (slice_stop (length xs) stop) xs)"
proof (induction r rule: py_iter.induct)
  case (1 s)
  then show ?case by (auto simp: take_map)
next
  case (4 n shp)
  have "slice_stop n stop \<le> n" unfolding slice_stop_def by auto
  with 4 show ?case by (auto simp: min_def)
next
  case (5 n shp)
  have "slice_stop n stop \<le> n" unfolding slice_stop_def by auto
  with 5 show ?case by (auto simp: min_def)
qed auto

lemma labelled_like_rows: "labelled_like recs cols (labelled_rows recs cols)"
  by (simp add: labelled_like_def labelled_rows_def comp_def)

lemma labelled_like_same:
  "labelled_like recs cols v \<Longrightarrow> same_records fv v \<Longrightarrow> labelled_like recs cols fv"
  by (auto simp: labelled_like_def same_records_def items_of_def iterable_def split: sum.splits)

lemma labelled_likeD:
  assumes "labelled_like recs cols x"
  shows "\<exists>rs. py_iter x = Inr rs \<and> length rs = length recs
     \<and> (\<forall>i < length recs. py_iter (rs ! i) = Inr (recs ! i @ map (\<lambda>c. c ! i) cols))"
proof -
  from assms obtain rs where rs: "py_iter x = Inr rs"
    and eq: "map py_iter rs = map (\<lambda>i. Inr (recs ! i @ map (\<lambda>c. c ! i) cols)) [0..<length recs]"
    by (auto simp: labelled_like_def split: sum.splits)
  from eq have len: "length rs = length recs"
    by (metis length_map length_upt minus_nat.diff_0)
  have "py_iter (rs ! i) = Inr (recs ! i @ map (\<lambda>c. c ! i) cols)" if "i < length recs" for i
  proof -
    have "map py_iter rs ! i = py_iter (rs ! i)" using that len by simp
    moreover have "map (\<lambda>i. Inr (recs ! i @ map (\<lambda>c. c ! i) cols)) [0..<length recs] ! i
        = Inr (recs ! i @ map (\<lambda>c. c ! i) cols)"
      using that by simp
    ultimately show ?thesis using eq by metis
  qed
  with rs len show ?thesis by blast
qed

lemma label_column_like:
  assumes "d s = Some x" "labelled_like recs cols x" "idx < length cols"
    "length (cols ! idx) = length recs"
  shows "label_column d s (length cols) idx = Inr (PList (cols ! idx))"
proof -
  from labelled_likeD [OF assms(2)] obtain rs where rs: "py_iter x = Inr rs"
    and len: "length rs = length recs"
    and rows: "\<forall>i < length recs. py_iter (rs ! i) = Inr (recs ! i @ map (\<lambda>c. c ! i) cols)"
    by blast
  have "rmap (\<lambda>bbox. py_index bbox (- int (length cols) + int idx)) rs
      = Inr (map (\<lambda>r. items_of r ! (length (items_of r) - length cols + idx)) rs)"
  proof (rule rmap_total)
    fix r assume "r \<in> set rs"
    then obtain i where i: "i < length recs" "r = rs ! i"
      using len by (metis in_set_conv_nth)
    with rows have it: "py_iter r = Inr (recs ! i @ map (\<lambda>c. c ! i) cols)" by simp
    have "nth_py (recs ! i @ map (\<lambda>c. c ! i) cols)
            (- int (length (map (\<lambda>c. c ! i) cols)) + int idx)
        = Inr (map (\<lambda>c. c ! i) cols ! idx)"
      by (rule nth_py_tail) (simp add: assms(3))
    then show "py_index r (- int (length cols) + int idx)
        = Inr (items_of r ! (length (items_of r) - length cols + idx))"
      using assms(3) by (simp add: py_index_iter [OF it] items_of_def it nth_append)
  qed
  also have "map (\<lambda>r. items_of r ! (length (items_of r) - length cols + idx)) rs = cols ! idx"
  proof (rule nth_equalityI)
    show "length (map (\<lambda>r. items_of r ! (length (items_of r) - length cols + idx)) rs)
        = length (cols ! idx)"
      using len assms(4) by simp
  next
    fix i assume "i < length (map (\<lambda>r. items_of r ! (length (items_of r) - length cols + idx)) rs)"
    then have i: "i < length recs" using len by simp
    with rows have "items_of (rs ! i) = recs ! i @ map (\<lambda>c. c ! i) cols"
      by (simp add: items_of_def)
    then show "map (\<lambda>r. items_of r ! (length (items_of r) - length cols + idx)) rs ! i
        = cols ! idx ! i"
      using i len assms(3) by (simp add: nth_append)
  qed
  finally show ?thesis
    using assms(1) rs by (simp add: label_column_def py_getitem_def)
qed

lemma stripped_stream_like:
  assumes "d s = Some x" "labelled_like recs cols x" "cols \<noteq> []"
  shows "\<exists>rows. stripped_stream d s (length cols) = Inr (PList rows)
     \<and> map py_iter rows = map Inr recs"
proof -
  from labelled_likeD [OF assms(2)] obtain rs where rs: "py_iter x = Inr rs"
    and len: "length rs = length recs"
    and rows: "\<forall>i < length recs. py_iter (rs ! i) = Inr (recs ! i @ map (\<lambda>c. c ! i) cols)"
    by blast
  define strip where "strip = (\<lambda>r. case py_slice_to r (- int (length cols)) of
      Inr r' \<Rightarrow> r' | Inl _ \<Rightarrow> PNone)"
  have each: "py_slice_to (rs ! i) (- int (length cols)) = Inr (strip (rs ! i))
      \<and> py_iter (strip (rs ! i)) = Inr (recs ! i)" if i: "i < length recs" for i
  proof -
    from rows i have it: "py_iter (rs ! i) = Inr (recs ! i @ map (\<lambda>c. c ! i) cols)" by simp
    from py_slice_iter [OF it, of "- int (length cols)"] obtain r' where
      r': "py_slice_to (rs ! i) (- int (length cols)) = Inr r'"
        "py_iter r' = Inr (take (slice_stop (length (recs ! i @ map (\<lambda>c. c ! i) cols))
            (- int (length cols))) (recs ! i @ map (\<lambda>c. c ! i) cols))"
      by blast
    have "slice_stop (length (recs ! i @ map (\<lambda>c. c ! i) cols)) (- int (length cols))
        = length (recs ! i)"
      using assms(3) by (simp add: slice_stop_def)
    with r' show ?thesis by (simp add: strip_def)
  qed
  have "rmap (\<lambda>r. py_slice_to r (- int (length cols))) rs = Inr (map strip rs)"
  proof (rule rmap_total)
    fix r assume "r \<in> set rs"
    then obtain i where "i < length recs" "r = rs ! i"
      using len by (metis in_set_conv_nth)
    with each show "py_slice_to r (- int (length cols)) = Inr (strip r)" by simp
  qed
  then have "stripped_stream d s (length cols) = Inr (PList (map strip rs))"
    using assms(1) rs by (simp add: stripped_stream_def py_getitem_def)
  moreover have "map py_iter (map strip rs) = map Inr recs"
    by (rule nth_equalityI) (use len each in simp_all)
  ultimately show ?thesis by blast
qed

lemma label_column_cong: "d1 s = d s \<Longrightarrow> label_column d1 s K i = label_column d s K i"
  by (simp add: label_column_def py_getitem_def)

lemma remove_fields_loop_forward:
  assumes "\<forall>j < length flds. label_column d s K (idx + j) = Inr (g (flds ! j))" "s \<notin> set flds"
  shows "remove_fields_loop s K idx flds d =
           (None, \<lambda>k. if k \<in> set flds then Some (g k) else d k)"
  using assms
proof (induction flds arbitrary: idx d)
  case Nil
  then show ?case by simp
next
  case (Cons f flds)
  from Cons.prems(1) have head: "label_column d s K idx = Inr (g f)" by force
  let ?d1 = "d(f \<mapsto> g f)"
  have same: "?d1 s = d s" using Cons.prems(2) by simp
  have "\<forall>j < length flds. label_column ?d1 s K (Suc idx + j) = Inr (g (flds ! j))"
  proof (intro allI impI)
    fix j assume "j < length flds"
    with Cons.prems(1) have "label_column d s K (idx + Suc j) = Inr (g ((f # flds) ! Suc j))"
      by (metis Suc_less_eq length_Cons)
    then show "label_column ?d1 s K (Suc idx + j) = Inr (g (flds ! j))"
      unfolding label_column_cong [of ?d1 s d, OF same] by simp
  qed
  then have rec: "remove_fields_loop s K (Suc idx) flds ?d1 =
          (None, \<lambda>k. if k \<in> set flds then Some (g k) else ?d1 k)"
    by (rule Cons.IH [of ?d1 "Suc idx"]) (use Cons.prems(2) in simp)
  have "remove_fields_loop s K idx (f # flds) d = remove_fields_loop s K (Suc idx) flds ?d1"
    using head by simp
  also note rec
  also have "(None, \<lambda>k. if k \<in> set flds then Some (g k) else ?d1 k)
      = (None :: error option, \<lambda>k. if k \<in> set (f # flds) then Some (g k) else d k)"
    by (auto simp: fun_eq_iff)
  finally show ?case .
qed

lemma remove_streams_loop_like:
  assumes "distinct names" "set names \<inter> set flds = {}" "flds \<noteq> []"
    "\<forall>s \<in> set names. \<forall>x. d s = Some x \<longrightarrow>
        labelled_like (R s) (map C flds) x \<and> (\<forall>f \<in> set flds. length (C f) = length (R s))"
  shows "\<exists>d'. remove_streams_loop names flds d = (None, d')
     \<and> (\<forall>k. k \<notin> set names \<union> set flds \<longrightarrow> d' k = d k)
     \<and> (\<forall>s \<in> set names. case d s of
            None \<Rightarrow> d' s = None
          | Some x \<Rightarrow> (\<exists>rows. d' s = Some (PList rows) \<and> map py_iter rows = map Inr (R s)))
     \<and> (\<forall>f \<in> set flds.
           d' f = (if \<exists>s \<in> set names. d s \<noteq> None then Some (PList (C f)) else d f))"
  using assms
proof (induction names arbitrary: d)
  case Nil
  then show ?case by simp
next
  case (Cons s names)
  from Cons.prems have dist: "distinct names" and disj: "set names \<inter> set flds = {}"
    and s: "s \<notin> set names" "s \<notin> set flds"
    by auto
  show ?case
  proof (cases "d s")
    case None
    have inv: "\<forall>s \<in> set names. \<forall>x. d s = Some x \<longrightarrow>
        labelled_like (R s) (map C flds) x \<and> (\<forall>f \<in> set flds. length (C f) = length (R s))"
      using Cons.prems(4) by simp
    from Cons.IH [OF dist disj Cons.prems(3) inv] obtain d' where
      d': "remove_streams_loop names flds d = (None, d')"
        "\<forall>k. k \<notin> set names \<union> set flds \<longrightarrow> d' k = d k"
        "\<forall>s \<in> set names. case d s of
            None \<Rightarrow> d' s = None
          | Some x \<Rightarrow> (\<exists>rows. d' s = Some (PList rows) \<and> map py_iter rows = map Inr (R s))"
        "\<forall>f \<in> set flds.
           d' f = (if \<exists>s \<in> set names. d s \<noteq> None then Some (PList (C f)) else d f)"
      by blast
    have "remove_streams_loop (s # names) flds d = (None, d')"
      using None d'(1) by simp
    moreover have "d' s = None" using d'(2) s None by simp
    ultimately show ?thesis
      using d'(2,3,4) None by (intro exI [of _ d']) auto
  next
    case (Some x)
    let ?cols = "map C flds"
    from Cons.prems(4) Some have x: "labelled_like (R s) ?cols x"
      and lens: "\<forall>f \<in> set flds. length (C f) = length (R s)"
      by auto
    define dA where "dA = (\<lambda>k. if k \<in> set flds then Some (PList (C k)) else d k)"
    have "\<forall>j < length flds. label_column d s (length flds) (0 + j) = Inr (PList (C (flds ! j)))"
    proof (intro allI impI)
      fix j assume j: "j < length flds"
      have "label_column d s (length ?cols) j = Inr (PList (?cols ! j))"
        by (rule label_column_like [of d s x "R s"]) (use Some x j lens in simp_all)
      with j show "label_column d s (length flds) (0 + j) = Inr (PList (C (flds ! j)))"
        by simp
    qed
    from remove_fields_loop_forward [where g = "\<lambda>k. PList (C k)", OF this s(2)]
    have inner: "remove_fields_loop s (length flds) 0 flds d = (None, dA)"
      by (simp add: dA_def)
    have dAs: "dA s = Some x"
      using s(2) Some by (simp add: dA_def)
    from stripped_stream_like [of dA s x "R s" ?cols, OF dAs x] Cons.prems(3)
    obtain rows where strip: "stripped_stream dA s (length flds) = Inr (PList rows)"
      and rows: "map py_iter rows = map Inr (R s)"
      by auto
    define dB where "dB = dA(s \<mapsto> PList rows)"
    have step: "remove_streams_loop (s # names) flds d = remove_streams_loop names flds dB"
      using Some inner strip by (simp add: dB_def)
    have dB_names: "dB k = d k" if "k \<in> set names" for k
      using that s(1) disj by (auto simp: dB_def dA_def)
    have inv: "\<forall>s \<in> set names. \<forall>x. dB s = Some x \<longrightarrow>
        labelled_like (R s) (map C flds) x \<and> (\<forall>f \<in> set flds. length (C f) = length (R s))"
      using Cons.prems(4) dB_names by simp
    from Cons.IH [OF dist disj Cons.prems(3) inv] obtain d' where
      d': "remove_streams_loop names flds dB = (None, d')"
        "\<forall>k. k \<notin> set names \<union> set flds \<longrightarrow> d' k = dB k"
        "\<forall>s \<in> set names. case dB s of
            None \<Rightarrow> d' s = None
          | Some x \<Rightarrow> (\<exists>rows. d' s = Some (PList rows) \<and> map py_iter rows = map Inr (R s))"
        "\<forall>f \<in> set flds.
           d' f = (if \<exists>s \<in> set names. dB s \<noteq> None then Some (PList (C f)) else dB f)"
      by blast
    have c1: "remove_streams_loop (s # names) flds d = (None, d')"
      using step d'(1) by simp
    have c2: "\<forall>k. k \<notin> set (s # names) \<union> set flds \<longrightarrow> d' k = d k"
      using d'(2) by (auto simp: dB_def dA_def)
    have d's: "d' s = Some (PList rows)"
      using d'(2) s by (simp add: dB_def)
    have c3: "\<forall>s' \<in> set (s # names). case d s' of
            None \<Rightarrow> d' s' = None
          | Some x \<Rightarrow> (\<exists>rows. d' s' = Some (PList rows) \<and> map py_iter rows = map Inr (R s'))"
      using d'(3) d's rows Some dB_names by simp
    have dBf: "dB f = Some (PList (C f))" if "f \<in> set flds" for f
      using that s(2) by (auto simp: dB_def dA_def)
    have c4: "\<forall>f \<in> set flds.
           d' f = (if \<exists>s' \<in> set (s # names). d s' \<noteq> None then Some (PList (C f)) else d f)"
      using d'(4) dBf Some by simp
    from c1 c2 c3 c4 show ?thesis by blast
  qed
qed

lemma postprocess_loop_kept:
  assumes "format (params p) = ''albumentations''" "distinct names"
    "\<forall>s \<in> set names. \<forall>v. d s = Some v \<longrightarrow>
        (\<exists>fv. filter_op p v shp = Inr fv \<and> check p fv shp = None)"
  shows "\<exists>d'. postprocess_loop p shp names d = (None, d')
     \<and> (\<forall>k. k \<notin> set names \<longrightarrow> d' k = d k)
     \<and> (\<forall>s \<in> set names. case d s of
            None \<Rightarrow> d' s = None
          | Some v \<Rightarrow> (\<exists>fv. filter_op p v shp = Inr fv \<and> d' s = Some fv))"
  using assms(2,3)
proof (induction names arbitrary: d)
  case Nil
  then show ?case by simp
next
  case (Cons s names)
  from Cons.prems(1) have s: "s \<notin> set names" and dist: "distinct names" by auto
  show ?case
  proof (cases "d s")
    case None
    have inv: "\<forall>s \<in> set names. \<forall>v. d s = Some v \<longrightarrow>
        (\<exists>fv. filter_op p v shp = Inr fv \<and> check p fv shp = None)"
      using Cons.prems(2) by simp
    from Cons.IH [OF dist inv] obtain d' where
      d': "postprocess_loop p shp names d = (None, d')"
        "\<forall>k. k \<notin> set names \<longrightarrow> d' k = d k"
        "\<forall>s \<in> set names. case d s of
            None \<Rightarrow> d' s = None
          | Some v \<Rightarrow> (\<exists>fv. filter_op p v shp = Inr fv \<and> d' s = Some fv)"
      by blast
    have "postprocess_loop p shp (s # names) d = (None, d')" using None d'(1) by simp
    moreover have "d' s = None" using d'(2) s None by simp
    ultimately show ?thesis using d'(2,3) None by (intro exI [of _ d']) auto
  next
    case (Some v)
    with Cons.prems(2) obtain fv where fv: "filter_op p v shp = Inr fv" "check p fv shp = None"
      by auto
    have cac: "check_and_convert p fv shp ''from'' = Inr fv"
      using fv(2) by (simp add: check_and_convert_def assms(1))
    define d1 where "d1 = d(s \<mapsto> fv)"
    have step: "postprocess_loop p shp (s # names) d = postprocess_loop p shp names d1"
      using Some fv(1) cac by (simp add: d1_def)
    have same: "d1 k = d k" if "k \<noteq> s" for k using that by (simp add: d1_def)
    have inv: "\<forall>s \<in> set names. \<forall>v. d1 s = Some v \<longrightarrow>
        (\<exists>fv. filter_op p v shp = Inr fv \<and> check p fv shp = None)"
      using Cons.prems(2) s same by (metis list.set_intros(2))
    from Cons.IH [OF dist inv] obtain d' where
      d': "postprocess_loop p shp names d1 = (None, d')"
        "\<forall>k. k \<notin> set names \<longrightarrow> d' k = d1 k"
        "\<forall>s \<in> set names. case d1 s of
            None \<Rightarrow> d' s = None
          | Some v \<Rightarrow> (\<exists>fv. filter_op p v shp = Inr fv \<and> d' s = Some fv)"
      by blast
    have c1: "postprocess_loop p shp (s # names) d = (None, d')" using step d'(1) by simp
    have c2: "\<forall>k. k \<notin> set (s # names) \<longrightarrow> d' k = d k" using d'(2) same by simp
    have d's: "d' s = Some fv" using d'(2) s by (simp add: d1_def)
    have c3: "\<forall>s' \<in> set (s # names). case d s' of
            None \<Rightarrow> d' s' = None
          | Some v \<Rightarrow> (\<exists>fv. filter_op p v shp = Inr fv \<and> d' s' = Some fv)"
    proof
      fix s' assume m: "s' \<in> set (s # names)"
      show "case d s' of
            None \<Rightarrow> d' s' = None
          | Some v \<Rightarrow> (\<exists>fv. filter_op p v shp = Inr fv \<and> d' s' = Some fv)"
      proof (cases "s' = s")
        case True
        with Some fv(1) d's show ?thesis by simp
      next
        case False
        with m have m': "s' \<in> set names" by simp
        from d'(3) m' have "case d1 s' of
            None \<Rightarrow> d' s' = None
          | Some v \<Rightarrow> (\<exists>fv. filter_op p v shp = Inr fv \<and> d' s' = Some fv)"
          by blast
        then show ?thesis unfolding same [OF False] .
      qed
    qed
    from c1 c2 c3 show ?thesis by blast
  qed
qed

lemma preprocess_loop_canonical:
  assumes "format (params p) = ''albumentations''"
    "\<forall>s \<in> set names. \<forall>v. d s = Some v \<longrightarrow> check p v shp = None"
  shows "preprocess_loop p shp names d = (None, d)"
  using assms(2)
proof (induction names)
  case Nil
  then show ?case by simp
next
  case (Cons s names)
  show ?case
  proof (cases "d s")
    case None
    with Cons show ?thesis by simp
  next
    case (Some v)
    with Cons.prems have "check_and_convert p v shp ''to'' = Inr v"
      by (simp add: check_and_convert_def assms(1))
    moreover have "d(s \<mapsto> v) = d" using Some by (rule map_upd_triv)
    ultimately show ?thesis using Some Cons by simp
  qed
qed

lemma add_label_fields_success:
  assumes flds: "flds = declared_label_fields p"
    and wf: "well_formed (data_fields p) flds data"
    and lens: "\<forall>s \<in> set (data_fields p). \<forall>f \<in> set flds. \<forall>v c.
        data s = Some v \<and> data f = Some c \<longrightarrow> py_len v = py_len c"
  shows "\<exists>dL. add_label_fields_to_data p data = (None, dL)
     \<and> (\<forall>k. k \<notin> set (data_fields p) \<longrightarrow> dL k = data k)
     \<and> (\<forall>s \<in> set (data_fields p). case data s of
              None \<Rightarrow> dL s = None
            | Some v \<Rightarrow>
                (\<forall>f \<in> set flds. length (column_items data f) = length (items_of v))
                \<and> dL s = Some (labelled (map (column_items data) flds) v))"
proof (cases "label_fields (params p)")
  case None
  then have "flds = []" using flds by (simp add: declared_label_fields_def)
  moreover have "add_label_fields_to_data p data = (None, data)"
    using None by (simp add: add_label_fields_to_data_def)
  ultimately show ?thesis
    by (auto simp: labelled_def split: option.splits)
next
  case (Some fl)
  then have fl: "fl = flds" using flds by (simp add: declared_label_fields_def)
  obtain r dL where loop: "add_streams_loop (data_fields p) flds data = (r, dL)"
    by (cases "add_streams_loop (data_fields p) flds data")
  note out = add_streams_loop_outcome [OF wf loop]
  have "r = None"
  proof (rule ccontr)
    assume "r \<noteq> None"
    with out obtain s v f where bad: "s \<in> set (data_fields p)" "data s = Some v"
      "f \<in> set flds" "length (column_items data f) \<noteq> length (items_of v)"
      by blast
    from well_formed_column [OF wf bad(3)] obtain c where
      c: "data f = Some c" "iterable c" "column_items data f = items_of c" by blast
    have "stream_ok v" using well_formed_stream [OF wf bad(1,2)] .
    then have "py_len v = Inr (length (items_of v))" by (simp add: stream_ok_def iterable_len)
    moreover have "py_len c = Inr (length (items_of c))" using c(2) by (simp add: iterable_len)
    moreover have "py_len v = py_len c" using lens bad(1,2,3) c(1) by blast
    ultimately show False using bad(4) c(3) by simp
  qed
  moreover have "add_label_fields_to_data p data = (r, dL)"
    using Some fl loop by (simp add: add_label_fields_to_data_def)
  ultimately show ?thesis using out by blast
qed

text \<open>
  C1. With the canonical format, on a well-formed sample whose label columns are as long
  as its streams, whose labelled streams pass \<open>check\<close> before and after the filter, and
  whose filter returns every record of every stream, \<open>preprocess\<close> and then
  \<open>postprocess\<close> succeed. In between, record \<open>i\<close> of every stream is the list of its
  coordinates followed by entry \<open>i\<close> of each label column, in the declared order of the
  label fields. At the end every label column is the list of its original values, rebuilt
  from the records when the sample holds a stream; every record of every stream has its
  original coordinates and nothing else; every other entry is untouched.
\<close>

theorem label_round_trip:
  assumes fmt: "format (params p) = ''albumentations''"
    and flds: "flds = declared_label_fields p"
    and wf: "well_formed (data_fields p) flds data"
    and img: "data ''image'' = Some img" "get_shape torch img = Inr shp"
      "''image'' \<notin> set (data_fields p)"
    and lens: "\<forall>s \<in> set (data_fields p). \<forall>f \<in> set flds. \<forall>v c.
        data s = Some v \<and> data f = Some c \<longrightarrow> py_len v = py_len c"
    and pass: "\<forall>s \<in> set (data_fields p). \<forall>v.
        snd (add_label_fields_to_data p data) s = Some v \<longrightarrow> kept_and_valid p shp v"
  shows "\<exists>d1 d2. preprocess torch p data = (None, d1) \<and> postprocess torch p d1 = (None, d2)
     \<and> (flds \<noteq> [] \<longrightarrow>
          (\<forall>s \<in> set (data_fields p). \<forall>v. data s = Some v \<longrightarrow>
             d1 s = Some (labelled_rows (map items_of (items_of v))
                            (map (column_items data) flds))))
     \<and> (\<forall>f \<in> set flds. \<exists>c. data f = Some c
           \<and> d2 f = Some (if \<exists>s \<in> set (data_fields p). data s \<noteq> None
                           then PList (items_of c) else c))
     \<and> (\<forall>s \<in> set (data_fields p). case data s of
            None \<Rightarrow> d2 s = None
          | Some v \<Rightarrow> (\<exists>v'. d2 s = Some v' \<and> iterable v'
                          \<and> map py_iter (items_of v') = map py_iter (items_of v)))
     \<and> (\<forall>k. k \<notin> set (data_fields p) \<union> set flds \<longrightarrow> d2 k = data k)"
proof -
  let ?names = "data_fields p"
  let ?cols = "map (column_items data) flds"
  define R where "R = (\<lambda>s. case data s of None \<Rightarrow> [] | Some v \<Rightarrow> map items_of (items_of v))"
  have dist: "distinct ?names" and disj: "set ?names \<inter> set flds = {}"
    using wf by (auto simp: well_formed_def list_all_iff)
  from add_label_fields_success [OF flds wf lens] obtain dL where
    add: "add_label_fields_to_data p data = (None, dL)"
    and frame: "\<forall>k. k \<notin> set ?names \<longrightarrow> dL k = data k"
    and streams: "\<forall>s \<in> set ?names. case data s of
              None \<Rightarrow> dL s = None
            | Some v \<Rightarrow>
                (\<forall>f \<in> set flds. length (column_items data f) = length (items_of v))
                \<and> dL s = Some (labelled ?cols v)"
    by blast
  have dL_none: "dL s = None" if "s \<in> set ?names" "data s = None" for s
    using streams that by force
  have dL_some: "dL s = Some (labelled ?cols v)"
      "\<forall>f \<in> set flds. length (column_items data f) = length (items_of v)"
    if "s \<in> set ?names" "data s = Some v" for s v
    using streams that by force+
  have dL_rows: "dL s = Some (labelled_rows (R s) ?cols)"
    if "s \<in> set ?names" "data s = Some v" "flds \<noteq> []" for s v
  proof -
    have "labelled ?cols v = labelled_rows (map items_of (items_of v)) ?cols"
      by (rule labelled_eq) (use that dL_some(2) [OF that(1,2)] in auto)
    with dL_some(1) [OF that(1,2)] that(2) show ?thesis by (simp add: R_def)
  qed
  have image: "rbind (py_getitem dL ''image'') (get_shape torch) = Inr shp"
    using frame img by (simp add: py_getitem_def)
  have pass': "\<forall>s \<in> set ?names. \<forall>v. dL s = Some v \<longrightarrow> kept_and_valid p shp v"
    using pass add by simp
  have pre: "preprocess torch p data = (None, dL)"
  proof -
    have "\<forall>s \<in> set ?names. \<forall>v. dL s = Some v \<longrightarrow> check p v shp = None"
      using pass' by (simp add: kept_and_valid_def)
    from preprocess_loop_canonical [OF fmt this] add image show ?thesis
      by (simp add: preprocess_def)
  qed
  have filt: "\<exists>fv. filter_op p v shp = Inr fv \<and> same_records fv v \<and> check p fv shp = None"
    if "s \<in> set ?names" "dL s = Some v" for s v
  proof -
    from pass' that have "kept_and_valid p shp v" by blast
    then show ?thesis by (cases "filter_op p v shp") (simp_all add: kept_and_valid_def)
  qed
  have "\<forall>s \<in> set ?names. \<forall>v. dL s = Some v \<longrightarrow>
        (\<exists>fv. filter_op p v shp = Inr fv \<and> check p fv shp = None)"
    using filt by blast
  from postprocess_loop_kept [OF fmt dist this] obtain dP where
    loop: "postprocess_loop p shp ?names dL = (None, dP)"
    and dP_frame: "\<forall>k. k \<notin> set ?names \<longrightarrow> dP k = dL k"
    and dP_streams: "\<forall>s \<in> set ?names. case dL s of
            None \<Rightarrow> dP s = None
          | Some v \<Rightarrow> (\<exists>fv. filter_op p v shp = Inr fv \<and> dP s = Some fv)"
    by blast
  have dP_none: "dP s = None" if "s \<in> set ?names" "data s = None" for s
    using dP_streams that dL_none [OF that] by force
  have dP_some: "\<exists>fv. dP s = Some fv \<and> same_records fv (labelled ?cols v)"
    if "s \<in> set ?names" "data s = Some v" for s v
  proof -
    note l = dL_some(1) [OF that]
    from dP_streams that(1) l obtain fv where "filter_op p (labelled ?cols v) shp = Inr fv"
      "dP s = Some fv" by force
    with filt [OF that(1) l] show ?thesis by auto
  qed
  have post: "postprocess torch p dL = remove_label_fields_from_data p dP"
    using image loop by (simp add: postprocess_def)
  have recs_iter: "map Inr (map items_of (items_of v)) = map py_iter (items_of v)"
    if "stream_ok v" for v
    using that by (auto simp: stream_ok_def list_all_iff iterableE)
  have c_frame_dP: "\<forall>k. k \<notin> set ?names \<union> set flds \<longrightarrow> dP k = data k"
    using dP_frame frame by simp
  show ?thesis
  proof (cases "flds = []")
    case True
    then have "remove_label_fields_from_data p dP = (None, dP)"
      using flds
      by (auto simp: remove_label_fields_from_data_def declared_label_fields_def
          split: option.splits)
    with post have post': "postprocess torch p dL = (None, dP)" by simp
    have s_ok: "\<forall>s \<in> set ?names. case data s of
            None \<Rightarrow> dP s = None
          | Some v \<Rightarrow> (\<exists>v'. dP s = Some v' \<and> iterable v'
                          \<and> map py_iter (items_of v') = map py_iter (items_of v))"
    proof
      fix s assume m: "s \<in> set ?names"
      show "case data s of
            None \<Rightarrow> dP s = None
          | Some v \<Rightarrow> (\<exists>v'. dP s = Some v' \<and> iterable v'
                          \<and> map py_iter (items_of v') = map py_iter (items_of v))"
      proof (cases "data s")
        case None
        with dP_none [OF m] show ?thesis by simp
      next
        case (Some v)
        from dP_some [OF m Some] True obtain fv where "dP s = Some fv" "same_records fv v"
          by (auto simp: labelled_def)
        with Some show ?thesis by (auto simp: same_records_def)
      qed
    qed
    from pre post' s_ok c_frame_dP True show ?thesis by auto
  next
    case False
    then have lf: "label_fields (params p) = Some flds"
      using flds by (auto simp: declared_label_fields_def split: option.splits)
    have rem: "remove_label_fields_from_data p dP = remove_streams_loop ?names flds dP"
      using lf False by (simp add: remove_label_fields_from_data_def)
    have inv: "\<forall>s \<in> set ?names. \<forall>x. dP s = Some x \<longrightarrow>
        labelled_like (R s) (map (column_items data) flds) x
        \<and> (\<forall>f \<in> set flds. length (column_items data f) = length (R s))"
    proof (intro ballI allI impI)
      fix s x assume m: "s \<in> set ?names" and x: "dP s = Some x"
      from dP_none [OF m] x obtain v where v: "data s = Some v" by (cases "data s") auto
      from dP_some [OF m v] x have same: "same_records x (labelled ?cols v)" by simp
      have eq: "labelled ?cols v = labelled_rows (R s) ?cols"
        using dL_some(1) [OF m v] dL_rows [OF m v False] by simp
      have "labelled_like (R s) ?cols x"
        by (rule labelled_like_same [OF labelled_like_rows]) (use same eq in simp)
      moreover have "\<forall>f \<in> set flds. length (column_items data f) = length (R s)"
        using dL_some(2) [OF m v] v by (simp add: R_def)
      ultimately show "labelled_like (R s) (map (column_items data) flds) x
        \<and> (\<forall>f \<in> set flds. length (column_items data f) = length (R s))"
        by blast
    qed
    from remove_streams_loop_like [OF dist disj False inv] obtain d2 where
      d2: "remove_streams_loop ?names flds dP = (None, d2)"
      and d2_frame: "\<forall>k. k \<notin> set ?names \<union> set flds \<longrightarrow> d2 k = dP k"
      and d2_streams: "\<forall>s \<in> set ?names. case dP s of
            None \<Rightarrow> d2 s = None
          | Some x \<Rightarrow> (\<exists>rows. d2 s = Some (PList rows) \<and> map py_iter rows = map Inr (R s))"
      and d2_cols: "\<forall>f \<in> set flds.
           d2 f = (if \<exists>s \<in> set ?names. dP s \<noteq> None then Some (PList (column_items data f))
                   else dP f)"
      by blast
    have post': "postprocess torch p dL = (None, d2)"
      using post rem d2 by simp
    have present: "(\<exists>s \<in> set ?names. dP s \<noteq> None) \<longleftrightarrow> (\<exists>s \<in> set ?names. data s \<noteq> None)"
    proof
      assume "\<exists>s \<in> set ?names. dP s \<noteq> None"
      then obtain s where "s \<in> set ?names" "dP s \<noteq> None" by blast
      with dP_none [of s] show "\<exists>s \<in> set ?names. data s \<noteq> None" by blast
    next
      assume "\<exists>s \<in> set ?names. data s \<noteq> None"
      then obtain s v where "s \<in> set ?names" "data s = Some v" by auto
      with dP_some [of s v] show "\<exists>s \<in> set ?names. dP s \<noteq> None" by force
    qed
    have c_rows: "flds \<noteq> [] \<longrightarrow>
          (\<forall>s \<in> set ?names. \<forall>v. data s = Some v \<longrightarrow>
             dL s = Some (labelled_rows (map items_of (items_of v)) ?cols))"
      using dL_rows by (auto simp: R_def)
    have c_cols: "\<forall>f \<in> set flds. \<exists>c. data f = Some c
           \<and> d2 f = Some (if \<exists>s \<in> set ?names. data s \<noteq> None then PList (items_of c) else c)"
    proof
      fix f assume m: "f \<in> set flds"
      from well_formed_column [OF wf m] obtain c where
        c: "data f = Some c" "iterable c" "column_items data f = items_of c" by blast
      have "f \<notin> set ?names" using disj m by auto
      with frame dP_frame c(1) have "dP f = Some c" by simp
      with d2_cols m c(3) have "d2 f = (if \<exists>s \<in> set ?names. dP s \<noteq> None
          then Some (PList (items_of c)) else Some c)"
        by simp
      then have "d2 f = Some (if \<exists>s \<in> set ?names. data s \<noteq> None then PList (items_of c) else c)"
        unfolding present by simp
      with c(1) show "\<exists>c. data f = Some c
           \<and> d2 f = Some (if \<exists>s \<in> set ?names. data s \<noteq> None then PList (items_of c) else c)"
        by blast
    qed
    have c_streams: "\<forall>s \<in> set ?names. case data s of
            None \<Rightarrow> d2 s = None
          | Some v \<Rightarrow> (\<exists>v'. d2 s = Some v' \<and> iterable v'
                          \<and> map py_iter (items_of v') = map py_iter (items_of v))"
    proof
      fix s assume m: "s \<in> set ?names"
      show "case data s of
            None \<Rightarrow> d2 s = None
          | Some v \<Rightarrow> (\<exists>v'. d2 s = Some v' \<and> iterable v'
                          \<and> map py_iter (items_of v') = map py_iter (items_of v))"
      proof (cases "data s")
        case None
        with d2_streams m dP_none [OF m] show ?thesis by force
      next
        case (Some v)
        from dP_some [OF m Some] obtain fv where "dP s = Some fv" by blast
        with d2_streams m obtain rows where rows: "d2 s = Some (PList rows)"
          "map py_iter rows = map Inr (R s)"
          by force
        have "map Inr (R s) = map py_iter (items_of v)"
          using recs_iter [OF well_formed_stream [OF wf m Some]] Some by (simp add: R_def)
        with rows Some show ?thesis by simp
      qed
    qed
    have c_frame: "\<forall>k. k \<notin> set ?names \<union> set flds \<longrightarrow> d2 k = data k"
      using d2_frame c_frame_dP by simp
    from pre post' c_rows c_cols c_streams c_frame show ?thesis by blast
  qed
qed

lemma example_processor_crowd:
  "data_fields (example_processor fmt labels (Some [(''crowd'', ''bboxes'')]))
     = [''bboxes'', ''crowd'']"
  "params (example_processor fmt labels (Some [(''crowd'', ''bboxes'')]))
     = \<lparr>format = fmt, label_fields = labels\<rparr>"
  "check (example_processor fmt labels (Some [(''crowd'', ''bboxes'')])) = check example_methods"
  "filter_op (example_processor fmt labels (Some [(''crowd'', ''bboxes'')]))
     = filter_op example_methods"
  by (simp_all add: example_processor_def init_processor_def example_methods_def)

theorem label_round_trip_witness:
  "\<exists>d1 d2.
     preprocess True (example_processor ''albumentations'' (Some [''labels'', ''scores''])
        (Some [(''crowd'', ''bboxes'')])) two_streams_sample = (None, d1)
     \<and> postprocess True (example_processor ''albumentations'' (Some [''labels'', ''scores''])
        (Some [(''crowd'', ''bboxes'')])) d1 = (None, d2)
     \<and> ([''labels'', ''scores''] \<noteq> [] \<longrightarrow>
          (\<forall>s \<in> set (data_fields (example_processor ''albumentations''
                (Some [''labels'', ''scores'']) (Some [(''crowd'', ''bboxes'')]))).
             \<forall>v. two_streams_sample s = Some v \<longrightarrow>
               d1 s = Some (labelled_rows (map items_of (items_of v))
                  (map (column_items two_streams_sample) [''labels'', ''scores'']))))
     \<and> (\<forall>f \<in> set [''labels'', ''scores'']. \<exists>c. two_streams_sample f = Some c
           \<and> d2 f = Some (if \<exists>s \<in> set (data_fields (example_processor ''albumentations''
                                (Some [''labels'', ''scores''])
                                (Some [(''crowd'', ''bboxes'')]))).
                                two_streams_sample s \<noteq> None
                           then PList (items_of c) else c))
     \<and> (\<forall>s \<in> set (data_fields (example_processor ''albumentations''
              (Some [''labels'', ''scores'']) (Some [(''crowd'', ''bboxes'')]))).
          case two_streams_sample s of
            None \<Rightarrow> d2 s = None
          | Some v \<Rightarrow> (\<exists>v'. d2 s = Some v' \<and> iterable v'
                          \<and> map py_iter (items_of v') = map py_iter (items_of v)))
     \<and> (\<forall>k. k \<notin> set (data_fields (example_processor ''albumentations''
              (Some [''labels'', ''scores'']) (Some [(''crowd'', ''bboxes'')])))
               \<union> set [''labels'', ''scores''] \<longrightarrow> d2 k = two_streams_sample k)"
proof (rule label_round_trip [where img = "PNdarray [480, 640, 3]" and shp = "[480, 640]"])
  let ?p = "example_processor ''albumentations'' (Some [''labels'', ''scores''])
        (Some [(''crowd'', ''bboxes'')])"
  show "format (params ?p) = ''albumentations''"
    by (simp add: example_processor_crowd)
  show "[''labels'', ''scores''] = declared_label_fields ?p"
    by (simp add: declared_label_fields_def example_processor_crowd)
  show "well_formed (data_fields ?p) [''labels'', ''scores''] two_streams_sample"
    by (simp add: example_processor_crowd well_formed_def two_streams_sample_def stream_ok_def
        iterable_def items_of_def)
  show "two_streams_sample ''image'' = Some (PNdarray [480, 640, 3])"
    by (simp add: two_streams_sample_def)
  show "get_shape True (PNdarray [480, 640, 3]) = Inr [480, 640]"
    by simp
  show "''image'' \<notin> set (data_fields ?p)"
    by (simp add: example_processor_crowd)
  show "\<forall>s \<in> set (data_fields ?p). \<forall>f \<in> set [''labels'', ''scores'']. \<forall>v c.
        two_streams_sample s = Some v \<and> two_streams_sample f = Some c \<longrightarrow> py_len v = py_len c"
    by (simp add: example_processor_crowd two_streams_sample_def)
  show "\<forall>s \<in> set (data_fields ?p). \<forall>v.
        snd (add_label_fields_to_data ?p two_streams_sample) s = Some v \<longrightarrow>
          kept_and_valid ?p [480, 640] v"
    by (simp add: example_processor_crowd add_label_fields_to_data_def two_streams_sample_def
        data_with_added_field_def py_getitem_def append_value_def example_methods_def
        long_enough_def keep_record_def kept_and_valid_def same_records_def iterable_def
        items_of_def)
qed

subsection \<open>Label columns after postprocess\<close>

lemma rmap_Inr:
  "rmap g xs = Inr ys \<Longrightarrow> length ys = length xs \<and> (\<forall>i < length xs. g (xs ! i) = Inr (ys ! i))"
proof (induction xs arbitrary: ys)
  case Nil
  then show ?case by simp
next
  case (Cons x xs)
  from Cons.prems obtain y ys' where y: "g x = Inr y" and ys': "rmap g xs = Inr ys'"
    and ys: "ys = y # ys'"
    by (auto simp: rbind_def split: sum.splits)
  from Cons.IH [OF ys'] y ys show ?case
    by (auto simp: nth_Cons split: nat.splits)
qed

lemma label_column_InrD:
  assumes "label_column d s K idx = Inr col" "d s = Some x"
  shows "\<exists>recs xs. py_iter x = Inr recs
     \<and> rmap (\<lambda>bbox. py_index bbox (- int K + int idx)) recs = Inr xs \<and> col = PList xs"
  using assms by (auto simp: label_column_def py_getitem_def rbind_def split: sum.splits)

lemma stripped_stream_InrD:
  assumes "stripped_stream d s K = Inr sv" "d s = Some x"
  shows "\<exists>recs rows. py_iter x = Inr recs
     \<and> rmap (\<lambda>r. py_slice_to r (- int K)) recs = Inr rows \<and> sv = PList rows"
  using assms by (auto simp: stripped_stream_def py_getitem_def rbind_def split: sum.splits)

lemma remove_fields_loop_frame:
  "remove_fields_loop s K idx flds d = (r, d') \<Longrightarrow> k \<notin> set flds \<Longrightarrow> d' k = d k"
  by (induction s K idx flds d rule: remove_fields_loop.induct) (auto split: sum.splits)

lemma remove_fields_loop_columns:
  assumes "remove_fields_loop s K idx flds d = (None, d')" "s \<notin> set flds" "distinct flds"
  shows "\<forall>j < length flds. \<exists>col. label_column d s K (idx + j) = Inr col
           \<and> d' (flds ! j) = Some col"
  using assms
proof (induction flds arbitrary: idx d)
  case Nil
  then show ?case by simp
next
  case (Cons f flds)
  from Cons.prems(1) obtain col0 where head: "label_column d s K idx = Inr col0"
    and loop: "remove_fields_loop s K (Suc idx) flds (d(f \<mapsto> col0)) = (None, d')"
    by (auto split: sum.splits)
  let ?d1 = "d(f \<mapsto> col0)"
  have same: "?d1 s = d s" using Cons.prems(2) by simp
  have s: "s \<notin> set flds" and dist: "distinct flds" and f: "f \<notin> set flds"
    using Cons.prems(2,3) by auto
  note IH = Cons.IH [of "Suc idx" ?d1, OF loop s dist]
  have d'f: "d' f = Some col0"
    using remove_fields_loop_frame [OF loop f] by simp
  show ?case
  proof (intro allI impI)
    fix j assume j: "j < length (f # flds)"
    show "\<exists>col. label_column d s K (idx + j) = Inr col \<and> d' ((f # flds) ! j) = Some col"
    proof (cases j)
      case 0
      with head d'f show ?thesis by simp
    next
      case (Suc j')
      with j have "j' < length flds" by simp
      with IH obtain col where "label_column ?d1 s K (Suc idx + j') = Inr col"
        "d' (flds ! j') = Some col" by blast
      then show ?thesis
        unfolding label_column_cong [of ?d1 s d, OF same] using Suc by simp
    qed
  qed
qed

lemma remove_streams_loop_frame:
  "remove_streams_loop names flds d = (r, d') \<Longrightarrow> k \<notin> set names \<union> set flds \<Longrightarrow> d' k = d k"
proof (induction names arbitrary: d)
  case Nil
  then show ?case by simp
next
  case (Cons s names)
  show ?case
  proof (cases "d s")
    case None
    with Cons show ?thesis by simp
  next
    case (Some x)
    obtain r1 d1 where inner: "remove_fields_loop s (length flds) 0 flds d = (r1, d1)"
      by (cases "remove_fields_loop s (length flds) 0 flds d")
    have d1: "d1 k = d k" using remove_fields_loop_frame [OF inner] Cons.prems(2) by simp
    show ?thesis
    proof (cases r1)
      case (Some e)
      with inner Cons.prems(1) \<open>d s = Some x\<close> have "d' = d1" by simp
      with d1 show ?thesis by simp
    next
      case None
      note r1 = None
      show ?thesis
      proof (cases "stripped_stream d1 s (length flds)")
        case (Inl e)
        with inner r1 Cons.prems(1) \<open>d s = Some x\<close> have "d' = d1" by simp
        with d1 show ?thesis by simp
      next
        case (Inr sv)
        with inner r1 Cons.prems(1) \<open>d s = Some x\<close>
        have "remove_streams_loop names flds (d1(s \<mapsto> sv)) = (r, d')" by simp
        from Cons.IH [OF this] Cons.prems(2) have "d' k = (d1(s \<mapsto> sv)) k" by simp
        with d1 Cons.prems(2) show ?thesis by simp
      qed
    qed
  qed
qed

lemma remove_streams_loop_append:
  "remove_streams_loop (pre @ rest) flds d =
     (case remove_streams_loop pre flds d of
        (Some e, d1) \<Rightarrow> (Some e, d1)
      | (None, d1) \<Rightarrow> remove_streams_loop rest flds d1)"
proof (induction pre arbitrary: d)
  case Nil
  show ?case by (cases "remove_streams_loop rest flds d") simp
next
  case (Cons s pre)
  show ?case
  proof (cases "d s")
    case None
    with Cons show ?thesis by simp
  next
    case (Some x)
    obtain r1 d1 where inner: "remove_fields_loop s (length flds) 0 flds d = (r1, d1)"
      by (cases "remove_fields_loop s (length flds) 0 flds d")
    show ?thesis
    proof (cases r1)
      case (Some e)
      with inner \<open>d s = Some x\<close> show ?thesis by simp
    next
      case None
      show ?thesis
      proof (cases "stripped_stream d1 s (length flds)")
        case (Inl e)
        with inner None \<open>d s = Some x\<close> show ?thesis by simp
      next
        case (Inr sv)
        have rec: "remove_streams_loop (pre @ rest) flds (d1(s \<mapsto> sv)) =
           (case remove_streams_loop pre flds (d1(s \<mapsto> sv)) of
              (Some e, d2) \<Rightarrow> (Some e, d2)
            | (None, d2) \<Rightarrow> remove_streams_loop rest flds d2)"
          by (rule Cons)
        have l: "remove_streams_loop ((s # pre) @ rest) flds d
            = remove_streams_loop (pre @ rest) flds (d1(s \<mapsto> sv))"
          using inner None Inr \<open>d s = Some x\<close> by simp
        have r: "remove_streams_loop (s # pre) flds d
            = remove_streams_loop pre flds (d1(s \<mapsto> sv))"
          using inner None Inr \<open>d s = Some x\<close> by simp
        show ?thesis unfolding l r by (rule rec)
      qed
    qed
  qed
qed

lemma remove_streams_loop_absent:
  "\<forall>s \<in> set names. d s = None \<Longrightarrow> remove_streams_loop names flds d = (None, d)"
  by (induction names) simp_all

lemma postprocess_loop_outcome:
  assumes "postprocess_loop p shp names d = (None, d')" "distinct names"
  shows "(\<forall>k. k \<notin> set names \<longrightarrow> d' k = d k)
     \<and> (\<forall>s \<in> set names. case d s of
            None \<Rightarrow> d' s = None
          | Some v \<Rightarrow> (\<exists>fv cv. filter_op p v shp = Inr fv
                          \<and> check_and_convert p fv shp ''from'' = Inr cv \<and> d' s = Some cv))"
  using assms
proof (induction names arbitrary: d)
  case Nil
  then show ?case by simp
next
  case (Cons s names)
  from Cons.prems(2) have s: "s \<notin> set names" and dist: "distinct names" by auto
  show ?case
  proof (cases "d s")
    case None
    with Cons.prems(1) have loop: "postprocess_loop p shp names d = (None, d')" by simp
    from Cons.IH [OF loop dist] None s show ?thesis by auto
  next
    case (Some v)
    obtain fv where fv: "filter_op p v shp = Inr fv"
      using Cons.prems(1) Some by (cases "filter_op p v shp") simp_all
    obtain cv where cv: "check_and_convert p fv shp ''from'' = Inr cv"
      using Cons.prems(1) Some fv by (cases "check_and_convert p fv shp ''from''") simp_all
    have loop: "postprocess_loop p shp names (d(s \<mapsto> cv)) = (None, d')"
      using Cons.prems(1) Some fv cv by simp
    note IH = Cons.IH [OF loop dist]
    from IH s have d's: "d' s = Some cv" by simp
    have frame: "\<forall>k. k \<notin> set (s # names) \<longrightarrow> d' k = d k"
      using IH by simp
    have rest: "\<forall>s' \<in> set names. case d s' of
            None \<Rightarrow> d' s' = None
          | Some v \<Rightarrow> (\<exists>fv cv. filter_op p v shp = Inr fv
                          \<and> check_and_convert p fv shp ''from'' = Inr cv \<and> d' s' = Some cv)"
    proof
      fix s' assume m: "s' \<in> set names"
      with s have same: "(d(s \<mapsto> cv)) s' = d s'" by auto
      from IH m have "case (d(s \<mapsto> cv)) s' of
            None \<Rightarrow> d' s' = None
          | Some v \<Rightarrow> (\<exists>fv cv. filter_op p v shp = Inr fv
                          \<and> check_and_convert p fv shp ''from'' = Inr cv \<and> d' s' = Some cv)"
        by blast
      then show "case d s' of
            None \<Rightarrow> d' s' = None
          | Some v \<Rightarrow> (\<exists>fv cv. filter_op p v shp = Inr fv
                          \<and> check_and_convert p fv shp ''from'' = Inr cv \<and> d' s' = Some cv)"
        unfolding same .
    qed
    from frame rest d's fv cv Some show ?thesis by auto
  qed
qed

text \<open>
  C2, amended. Label fields are distinct and none is named like a stream. When
  \<open>postprocess\<close> succeeds, the label columns it leaves belong to the last stream of
  \<open>data_fields\<close> that the sample holds: with \<open>recs\<close> the records of that stream after
  filtering and conversion, the stream holds one stripped record per element of \<open>recs\<close>,
  and the column of the label field at index \<open>idx\<close> has one entry per element of \<open>recs\<close>,
  the entry at position \<open>i\<close> being the element of record \<open>i\<close> at offset
  \<open>-len(label_fields) + idx\<close>.
\<close>

theorem postprocess_label_correspondence:
  assumes lf: "label_fields (params p) = Some flds" "flds \<noteq> []" "distinct flds"
    and names: "distinct (data_fields p)" "set (data_fields p) \<inter> set flds = {}"
    and last: "data_fields p = pre @ name # post" "\<forall>s \<in> set post. data s = None"
    and v: "data name = Some v"
    and ok: "postprocess torch p data = (None, data')"
  shows "\<exists>img shp fv cv recs rows.
       data ''image'' = Some img \<and> get_shape torch img = Inr shp
     \<and> filter_op p v shp = Inr fv \<and> check_and_convert p fv shp ''from'' = Inr cv
     \<and> py_iter cv = Inr recs
     \<and> data' name = Some (PList rows) \<and> length rows = length recs
     \<and> (\<forall>i < length recs. py_slice_to (recs ! i) (- int (length flds)) = Inr (rows ! i))
     \<and> (\<forall>idx < length flds. \<exists>col.
           data' (flds ! idx) = Some (PList col) \<and> length col = length recs
           \<and> (\<forall>i < length recs.
                 py_index (recs ! i) (- int (length flds) + int idx) = Inr (col ! i)))"
proof -
  let ?K = "length flds"
  obtain img where img: "data ''image'' = Some img"
    using ok by (cases "data ''image''") (simp_all add: postprocess_def py_getitem_def)
  obtain shp where shp: "get_shape torch img = Inr shp"
    using ok img by (cases "get_shape torch img") (simp_all add: postprocess_def py_getitem_def)
  obtain r0 dP where loop: "postprocess_loop p shp (data_fields p) data = (r0, dP)"
    by (cases "postprocess_loop p shp (data_fields p) data")
  have r0: "r0 = None"
    using ok img shp loop by (cases r0) (simp_all add: postprocess_def py_getitem_def)
  have rem: "remove_streams_loop (data_fields p) flds dP = (None, data')"
    using ok img shp loop r0 lf
    by (simp add: postprocess_def py_getitem_def remove_label_fields_from_data_def)
  note out = postprocess_loop_outcome [OF loop [unfolded r0] names(1)]
  have mem: "name \<in> set (data_fields p)" using last(1) by simp
  from out mem v obtain fv cv where fv: "filter_op p v shp = Inr fv"
    and cv: "check_and_convert p fv shp ''from'' = Inr cv" and dPn: "dP name = Some cv"
    by force
  have name_pre: "name \<notin> set pre" and name_post: "name \<notin> set post"
    and pre_post: "set pre \<inter> set post = {}"
    using names(1) last(1) by auto
  have name_flds: "name \<notin> set flds" using names(2) mem by auto
  have post_absent_dP: "\<forall>s \<in> set post. dP s = None"
  proof
    fix s assume m: "s \<in> set post"
    then have "s \<in> set (data_fields p)" using last(1) by simp
    with out have "case data s of None \<Rightarrow> dP s = None
          | Some v \<Rightarrow> (\<exists>fv cv. filter_op p v shp = Inr fv
                          \<and> check_and_convert p fv shp ''from'' = Inr cv \<and> dP s = Some cv)"
      by blast
    with last(2) m show "dP s = None" by simp
  qed
  obtain r1 d1 where pre: "remove_streams_loop pre flds dP = (r1, d1)"
    by (cases "remove_streams_loop pre flds dP")
  have split: "remove_streams_loop (pre @ name # post) flds dP =
     (case remove_streams_loop pre flds dP of
        (Some e, d1) \<Rightarrow> (Some e, d1)
      | (None, d1) \<Rightarrow> remove_streams_loop (name # post) flds d1)"
    by (rule remove_streams_loop_append)
  have r1: "r1 = None"
    using rem split pre unfolding last(1) by (cases r1) simp_all
  have rest: "remove_streams_loop (name # post) flds d1 = (None, data')"
    using rem split pre r1 unfolding last(1) by simp
  have d1_frame: "d1 k = dP k" if "k \<notin> set pre \<union> set flds" for k
    using remove_streams_loop_frame [OF pre that] .
  have d1n: "d1 name = Some cv"
    using d1_frame [of name] name_pre name_flds dPn by simp
  obtain r2 d2 where inner: "remove_fields_loop name ?K 0 flds d1 = (r2, d2)"
    by (cases "remove_fields_loop name ?K 0 flds d1")
  have r2: "r2 = None"
    using rest d1n inner by (cases r2) simp_all
  obtain sv where sv: "stripped_stream d2 name ?K = Inr sv"
    using rest d1n inner r2 by (cases "stripped_stream d2 name ?K") simp_all
  have tail: "remove_streams_loop post flds (d2(name \<mapsto> sv)) = (None, data')"
    using rest d1n inner r2 sv by simp
  have d2_frame: "d2 k = d1 k" if "k \<notin> set flds" for k
    using remove_fields_loop_frame [OF inner that] .
  have "\<forall>s \<in> set post. (d2(name \<mapsto> sv)) s = None"
  proof
    fix s assume m: "s \<in> set post"
    have "s \<noteq> name" using m name_post by auto
    moreover have "s \<notin> set flds" using m names(2) last(1) by auto
    moreover have "s \<notin> set pre" using m pre_post by auto
    ultimately show "(d2(name \<mapsto> sv)) s = None"
      using d2_frame [of s] d1_frame [of s] post_absent_dP m by simp
  qed
  then have "remove_streams_loop post flds (d2(name \<mapsto> sv)) = (None, d2(name \<mapsto> sv))"
    by (rule remove_streams_loop_absent)
  with tail have data': "data' = d2(name \<mapsto> sv)" by simp
  have d2n: "d2 name = Some cv" using d2_frame [OF name_flds] d1n by simp
  from stripped_stream_InrD [OF sv d2n] obtain recs rows where
    recs: "py_iter cv = Inr recs"
    and rows: "rmap (\<lambda>r. py_slice_to r (- int ?K)) recs = Inr rows" and svr: "sv = PList rows"
    by blast
  note rows' = rmap_Inr [OF rows]
  have c_stream: "data' name = Some (PList rows)" using data' svr by simp
  have c_cols: "\<forall>idx < ?K. \<exists>col.
           data' (flds ! idx) = Some (PList col) \<and> length col = length recs
           \<and> (\<forall>i < length recs. py_index (recs ! i) (- int ?K + int idx) = Inr (col ! i))"
  proof (intro allI impI)
    fix idx assume idx: "idx < ?K"
    from remove_fields_loop_columns [OF inner [unfolded r2] name_flds lf(3)] idx
    obtain c where c: "label_column d1 name ?K (0 + idx) = Inr c" "d2 (flds ! idx) = Some c"
      by blast
    from label_column_InrD [OF c(1) d1n] recs obtain xs where
      xs: "rmap (\<lambda>bbox. py_index bbox (- int ?K + int (0 + idx))) recs = Inr xs" "c = PList xs"
      by auto
    note xs' = rmap_Inr [OF xs(1)]
    have "flds ! idx \<noteq> name" using idx name_flds by (metis nth_mem)
    then have "data' (flds ! idx) = Some (PList xs)"
      using data' c(2) xs(2) by simp
    with xs' show "\<exists>col.
           data' (flds ! idx) = Some (PList col) \<and> length col = length recs
           \<and> (\<forall>i < length recs. py_index (recs ! i) (- int ?K + int idx) = Inr (col ! i))"
      by auto
  qed
  from img shp fv cv recs c_stream rows' c_cols show ?thesis by blast
qed

lemmas postprocess_eval =
  postprocess_def py_getitem_def example_processor_crowd check_and_convert_def
  example_methods_def keep_record_def long_enough_def remove_label_fields_from_data_def
  label_column_def stripped_stream_def nth_py_def slice_stop_def transformed_sample_def

theorem postprocess_label_correspondence_witness:
  "\<exists>img shp fv cv recs rows.
       transformed_sample ''image'' = Some img \<and> get_shape True img = Inr shp
     \<and> filter_op (example_processor ''albumentations'' (Some [''labels''])
            (Some [(''crowd'', ''bboxes'')]))
          (PList [PList [PInt (- 5), PInt 5, PInt 6, PInt 6, PInt 7],
                  PList [PInt 1, PInt 1, PInt 2, PInt 2, PInt 8]]) shp = Inr fv
     \<and> check_and_convert (example_processor ''albumentations'' (Some [''labels''])
            (Some [(''crowd'', ''bboxes'')])) fv shp ''from'' = Inr cv
     \<and> py_iter cv = Inr recs
     \<and> snd (postprocess True (example_processor ''albumentations'' (Some [''labels''])
            (Some [(''crowd'', ''bboxes'')])) transformed_sample) ''crowd'' = Some (PList rows)
     \<and> length rows = length recs
     \<and> (\<forall>i < length recs. py_slice_to (recs ! i) (- int (length [''labels''])) = Inr (rows ! i))
     \<and> (\<forall>idx < length [''labels'']. \<exists>col.
           snd (postprocess True (example_processor ''albumentations'' (Some [''labels''])
              (Some [(''crowd'', ''bboxes'')])) transformed_sample) ([''labels''] ! idx)
             = Some (PList col)
           \<and> length col = length recs
           \<and> (\<forall>i < length recs.
                 py_index (recs ! i) (- int (length [''labels'']) + int idx) = Inr (col ! i)))"
proof (rule postprocess_label_correspondence [where pre = "[''bboxes'']" and post = "[]"])
  let ?p = "example_processor ''albumentations'' (Some [''labels''])
        (Some [(''crowd'', ''bboxes'')])"
  show "label_fields (params ?p) = Some [''labels'']"
    by (simp add: example_processor_crowd)
  show "[''labels''] \<noteq> []" by simp
  show "distinct [''labels'']" by simp
  show "distinct (data_fields ?p)" by (simp add: example_processor_crowd)
  show "set (data_fields ?p) \<inter> set [''labels''] = {}"
    by (simp add: example_processor_crowd)
  show "data_fields ?p = [''bboxes''] @ ''crowd'' # []"
    by (simp add: example_processor_crowd)
  show "\<forall>s \<in> set []. transformed_sample s = None" by simp
  show "transformed_sample ''crowd'' =
      Some (PList [PList [PInt (- 5), PInt 5, PInt 6, PInt 6, PInt 7],
                   PList [PInt 1, PInt 1, PInt 2, PInt 2, PInt 8]])"
    by (simp add: transformed_sample_def)
  show "postprocess True ?p transformed_sample =
      (None, snd (postprocess True ?p transformed_sample))"
    by (simp add: postprocess_eval)
qed

text \<open>
  C2, as the code has it. With two streams in the sample, the columns are overwritten by
  each stream in turn: here \<open>bboxes\<close> keeps two records, the filter drops one of the two
  records of \<open>crowd\<close>, and \<open>labels\<close> ends with the single label of \<open>crowd\<close>.
\<close>

theorem postprocess_label_column_of_last_stream:
  "fst (postprocess True (example_processor ''albumentations'' (Some [''labels''])
          (Some [(''crowd'', ''bboxes'')])) transformed_sample) = None
   \<and> snd (postprocess True (example_processor ''albumentations'' (Some [''labels''])
          (Some [(''crowd'', ''bboxes'')])) transformed_sample) ''bboxes''
       = Some (PList [PList [PInt 0, PInt 0, PInt 1, PInt 1],
                      PList [PInt 2, PInt 3, PInt 4, PInt 5]])
   \<and> snd (postprocess True (example_processor ''albumentations'' (Some [''labels''])
          (Some [(''crowd'', ''bboxes'')])) transformed_sample) ''labels''
       = Some (PList [PInt 8])"
  by (simp add: postprocess_eval)

end
